theory Spec2Isabelle
  imports Complex_Main "HOL-Library.Multiset"
begin

section \<open>Numbers\<close>

text \<open>
  The program computes with JavaScript numbers. They are modelled as exact reals; the
  integers that index grids and count cells are \<open>nat\<close>. \<open>Math.round\<close> rounds to the
  nearest integer, halves upwards, and \<open>Math.floor\<close>, \<open>Math.ceil\<close> are the HOL floor and
  ceiling. A division whose divisor is zero has no finite value in JavaScript (it yields
  NaN or an infinity); \<open>js_div\<close> returns \<open>None\<close> there.
\<close>

definition js_round :: "real \<Rightarrow> int" where
  "js_round v = \<lfloor>v + 1 / 2\<rfloor>"

definition js_div :: "real \<Rightarrow> real \<Rightarrow> real option" where
  "js_div p q = (if q = 0 then None else Some (p / q))"

section \<open>Luminance and colour transforms (ValueAliasing.tsx, Pfp.tsx)\<close>

definition calculatedExposure :: "real \<Rightarrow> real" where
  "calculatedExposure exposure = (exposure - 50) * 2"

definition calculatedContrast :: "real \<Rightarrow> real" where
  "calculatedContrast contrast =
     (if contrast \<le> 50 then contrast / 50 else 1 + ((contrast - 50) / 50) * 2)"

text \<open>
  \<open>drawValueAliasingMatrix\<close>, lines 239-240: the remap of one cell's gray value.
\<close>

definition finalGray_ValueAliasing :: "real \<Rightarrow> real \<Rightarrow> real \<Rightarrow> int" where
  "finalGray_ValueAliasing exposure contrast originalGray =
     (let adjusted = ((originalGray / 255 - 1 / 2) * calculatedContrast contrast + 1 / 2) * 255
                       + calculatedExposure exposure
      in js_round (max 0 (min 255 adjusted)))"

text \<open>
  \<open>gridColors\<close> of the Glyph Mirror panel (Pfp.tsx, lines 226-232) for a numeric raw
  pixel; \<open>imageSrc\<close> says whether an image is loaded.
\<close>

definition finalGray_Pfp :: "bool \<Rightarrow> real \<Rightarrow> real \<Rightarrow> real \<Rightarrow> int" where
  "finalGray_Pfp imageSrc exposure contrast val =
     (let adjusted = (if imageSrc
                      then ((val / 255 - 1 / 2) * calculatedContrast contrast + 1 / 2) * 255
                             + calculatedExposure exposure
                      else val)
      in js_round (max 0 (min 255 adjusted)))"

text \<open>CMYK simulation (ValueAliasing.tsx, lines 100-122).\<close>

definition rgbToCmyk :: "real \<Rightarrow> real \<Rightarrow> real \<Rightarrow> (real \<times> real \<times> real \<times> real) option" where
  "rgbToCmyk r g b =
     (let r' = r / 255; g' = g / 255; b' = b / 255;
          k = 1 - max (max r' g') b'
      in if k = 1 then Some (0, 0, 0, 1)
         else (case (js_div (1 - r' - k) (1 - k), js_div (1 - g' - k) (1 - k),
                     js_div (1 - b' - k) (1 - k)) of
                 (Some c, Some m, Some y) \<Rightarrow> Some (c, m, y, k)
               | _ \<Rightarrow> None))"

definition cmykToRgb :: "real \<Rightarrow> real \<Rightarrow> real \<Rightarrow> real \<Rightarrow> int \<times> int \<times> int" where
  "cmykToRgb c m y k =
     (js_round (255 * (1 - c) * (1 - k)), js_round (255 * (1 - m) * (1 - k)),
      js_round (255 * (1 - y) * (1 - k)))"

definition simulateCmyk :: "real \<Rightarrow> real \<Rightarrow> real \<Rightarrow> (int \<times> int \<times> int) option" where
  "simulateCmyk r g b =
     (case rgbToCmyk r g b of None \<Rightarrow> None | Some (c, m, y, k) \<Rightarrow> Some (cmykToRgb c m y k))"


section \<open>Slider values\<close>




section \<open>Circular-crop coverage mask (Pfp.tsx)\<close>

text \<open>Lines 151-153: the diameter of the circular matrix, its radius and its centre.\<close>

definition diameter :: "real \<Rightarrow> int" where
  "diameter resolution = \<lfloor>(0.32 * resolution + 9) / 2\<rfloor> * 2 + 1"

definition radius :: "nat \<Rightarrow> real" where
  "radius d = real d / 2"

definition center :: "nat \<Rightarrow> real" where
  "center d = radius d - 1 / 2"

text \<open>Line 163: is the centre of cell \<open>(x, y)\<close> within the circle?\<close>

definition isOriginalPixel :: "nat \<Rightarrow> nat \<Rightarrow> nat \<Rightarrow> bool" where
  "isOriginalPixel d x y =
     (sqrt ((real x - center d)\<^sup>2 + (real y - center d)\<^sup>2) \<le> radius d)"

text \<open>
  Lines 173-180: the 5 x 5 sub-samples of a cell, \<open>subY\<close> in the outer loop and \<open>subX\<close>
  in the inner one, and the number of them that lie within the radius.
\<close>

definition subSampleInside :: "nat \<Rightarrow> nat \<Rightarrow> nat \<Rightarrow> nat \<times> nat \<Rightarrow> bool" where
  "subSampleInside d x y s =
     (case s of (subY, subX) \<Rightarrow>
        (let currentX = (real x - 1 / 2 + (1 / 5) * (real subX + 1 / 2)) - center d;
             currentY = (real y - 1 / 2 + (1 / 5) * (real subY + 1 / 2)) - center d
         in sqrt (currentX * currentX + currentY * currentY) \<le> radius d))"

definition pointsInside :: "nat \<Rightarrow> nat \<Rightarrow> nat \<Rightarrow> nat" where
  "pointsInside d x y =
     length (filter (subSampleInside d x y) (List.product [0..<5] [0..<5]))"

text \<open>Lines 162-185: one entry of the mask, and the mask.\<close>

definition maskCell :: "bool \<Rightarrow> nat \<Rightarrow> nat \<Rightarrow> nat \<Rightarrow> real" where
  "maskCell isAntiAliased d x y =
     (if \<not> isAntiAliased then (if isOriginalPixel d x y then 1 else 0)
      else if isOriginalPixel d x y then 1
      else if sqrt ((real x - center d)\<^sup>2 + (real y - center d)\<^sup>2) < radius d + 3 / 2
           then (if pointsInside d x y > 0 then real (pointsInside d x y) / 25 else 0)
      else 0)"

definition matrixMask :: "bool \<Rightarrow> nat \<Rightarrow> real list list" where
  "matrixMask isAntiAliased d =
     map (\<lambda>y. map (\<lambda>x. maskCell isAntiAliased d x y) [0..<d]) [0..<d]"

text \<open>
  The specification's full supersampling of a cell: the fraction of its 25 sub-samples
  whose distance from the centre is at most the radius.
\<close>

definition fullSupersampling :: "nat \<Rightarrow> nat \<Rightarrow> nat \<Rightarrow> real" where
  "fullSupersampling d x y = real (pointsInside d x y) / 25"

section \<open>Glass Dots: colour grid and blob detection (drawGlassDots)\<close>

record rgb =
  col_r :: int
  col_g :: int
  col_b :: int

record blob =
  blob_x :: nat
  blob_y :: nat
  blob_size :: nat

text \<open>
  \<open>colorDistance\<close> (lines 94-103). A missing colour gives \<open>Infinity\<close>, which is \<open>None\<close>
  here; \<open>exceeds dv t\<close> is the comparison \<open>dv > t\<close> on such a value.
\<close>

definition colorDistance :: "rgb option \<Rightarrow> rgb option \<Rightarrow> real option" where
  "colorDistance c1 c2 =
     (case c1 of None \<Rightarrow> None
      | Some p \<Rightarrow>
        (case c2 of None \<Rightarrow> None
         | Some q \<Rightarrow>
           (let dr = col_r p - col_r q; dg = col_g p - col_g q; db = col_b p - col_b q
            in Some (sqrt (real_of_int (dr * dr + dg * dg + db * db))))))"

definition exceeds :: "real option \<Rightarrow> real \<Rightarrow> bool" where
  "exceeds dv t = (case dv of None \<Rightarrow> True | Some v \<Rightarrow> t < v)"

text \<open>The test \<open>colorDistance(c1, c2) > t\<close> of lines 164 and 175.\<close>

definition tooDistant :: "rgb option \<Rightarrow> rgb option \<Rightarrow> real \<Rightarrow> bool" where
  "tooDistant c1 c2 t = exceeds (colorDistance c1 c2) t"

text \<open>
  Lines 136-141: the colour grid read from the RGBA bytes of the downsampled image,
  \<open>gridHeight\<close> rows of \<open>gridWidth\<close> cells. The alpha byte at \<open>i + 3\<close> is not read.
\<close>

definition colorGrid_GlassDots :: "nat \<Rightarrow> nat \<Rightarrow> int list \<Rightarrow> rgb option list list" where
  "colorGrid_GlassDots gridWidth gridHeight imageData =
     map (\<lambda>y. map (\<lambda>x. (let i = (y * gridWidth + x) * 4
                        in Some \<lparr>col_r = imageData ! i, col_g = imageData ! (i + 1),
                                 col_b = imageData ! (i + 2)\<rparr>))
                [0..<gridWidth])
         [0..<gridHeight]"

definition similarityThreshold :: "real \<Rightarrow> real" where
  "similarityThreshold similaritySensitivity = (similaritySensitivity / 100) * 160"

text \<open>
  The growth loop of \<open>findMaxBlobSize\<close> (lines 154-182), which the corner filling repeats
  on its local array (lines 243-261). \<open>blocked cx cy\<close> is the test that sets
  \<open>canExpand = false\<close> at cell \<open>(cx, cy)\<close>. The square grows by one as long as it stays
  within the limits and no cell of the new right column (\<open>nextSize\<close> cells) and of the
  new bottom row (\<open>currentSize\<close> cells) is blocked.
\<close>

function growSquare ::
  "(nat \<Rightarrow> nat \<Rightarrow> bool) \<Rightarrow> nat \<Rightarrow> nat \<Rightarrow> nat \<Rightarrow> nat \<Rightarrow> nat \<Rightarrow> nat" where
  "growSquare blocked startX startY limitX limitY currentSize =
     (if startY + (currentSize + 1) > limitY \<or> startX + (currentSize + 1) > limitX
      then currentSize
      else if list_ex (\<lambda>i. blocked (startX + currentSize) (startY + i)) [0..<currentSize + 1]
      then currentSize
      else if list_ex (\<lambda>i. blocked (startX + i) (startY + currentSize)) [0..<currentSize]
      then currentSize
      else growSquare blocked startX startY limitX limitY (currentSize + 1))"
  by pat_completeness auto
termination
  by (relation "measure (\<lambda>(blocked, startX, startY, limitX, limitY, currentSize).
                  limitX - (startX + currentSize))") auto

declare growSquare.simps [simp del]

definition findMaxBlobSize ::
  "rgb option list list \<Rightarrow> bool list list \<Rightarrow> real \<Rightarrow> nat \<Rightarrow> nat \<Rightarrow> nat \<Rightarrow> nat \<Rightarrow> bool \<Rightarrow> nat" where
  "findMaxBlobSize colorGrid visited similaritySensitivity startX startY limitX limitY
       checkSimilarity =
     (if similaritySensitivity = 0 then 1
      else (let anchorColor = colorGrid ! startY ! startX
            in growSquare
                 (\<lambda>cx cy. visited ! cy ! cx
                    \<or> (checkSimilarity
                        \<and> tooDistant anchorColor (colorGrid ! cy ! cx)
                             (similarityThreshold similaritySensitivity)))
                 startX startY limitX limitY 1))"

text \<open>
  Lines 194-198 and 267-271: the cells of the square at \<open>(x, y)\<close> are set to \<open>true\<close>,
  row by row.
\<close>

definition markRow :: "bool list \<Rightarrow> nat \<Rightarrow> nat \<Rightarrow> bool list" where
  "markRow row x sz = fold (\<lambda>i r. r[x + i := True]) [0..<sz] row"

definition markVisited :: "bool list list \<Rightarrow> nat \<Rightarrow> nat \<Rightarrow> nat \<Rightarrow> bool list list" where
  "markVisited visited x y sz =
     fold (\<lambda>j v. v[y + j := markRow (v ! (y + j)) x sz]) [0..<sz] visited"

text \<open>The first \<open>n\<close> rows of that marking, with rows of width \<open>w\<close>.\<close>

definition markRows :: "bool list list \<Rightarrow> nat \<Rightarrow> nat \<Rightarrow> nat \<Rightarrow> nat \<Rightarrow> bool list list" where
  "markRows v x y w n = fold (\<lambda>j u. u[y + j := markRow (u ! (y + j)) x w]) [0..<n] v"

text \<open>
  Lines 203-233: the circle that is drawn for a blob of more than one cell, and the test
  whether it meets the cell \<open>(lx, ly)\<close> of the blob. The source's \<open>0.001\<close> is 1/1000.
\<close>

definition effectiveGapPercent :: "real \<Rightarrow> real" where
  "effectiveGapPercent pixelGap = (pixelGap * 16 / 100) / 100"

definition visualRadius :: "nat \<Rightarrow> real \<Rightarrow> real" where
  "visualRadius sz pixelGap = (real sz - effectiveGapPercent pixelGap) / 2"

definition circleMeetsCell :: "nat \<Rightarrow> real \<Rightarrow> nat \<Rightarrow> nat \<Rightarrow> bool" where
  "circleMeetsCell sz pixelGap lx ly =
     (let centerX = real sz / 2; centerY = real sz / 2;
          closestX = max (real lx) (min centerX (real lx + 1));
          closestY = max (real ly) (min centerY (real ly + 1));
          dx = centerX - closestX; dy = centerY - closestY
      in dx * dx + dy * dy < visualRadius sz pixelGap * visualRadius sz pixelGap - 1 / 1000)"

definition localVisited_init :: "nat \<Rightarrow> real \<Rightarrow> bool list list" where
  "localVisited_init sz pixelGap =
     map (\<lambda>ly. map (\<lambda>lx. circleMeetsCell sz pixelGap lx ly) [0..<sz]) [0..<sz]"

text \<open>
  Lines 236-273: the cells of the blob that the circle leaves free are filled, in
  row-major order, with the largest free square at each; one step of that scan at the
  local cell \<open>(lx, ly)\<close>, and the whole scan.
\<close>

definition fillStep ::
  "nat \<Rightarrow> nat \<Rightarrow> nat \<Rightarrow> nat \<times> nat \<Rightarrow> bool list list \<times> blob list \<Rightarrow> bool list list \<times> blob list" where
  "fillStep x y sz p st =
     (case p of (ly, lx) \<Rightarrow>
      (case st of (localVisited, fillers) \<Rightarrow>
        if localVisited ! ly ! lx then st
        else (let subSize = growSquare (\<lambda>cx cy. localVisited ! cy ! cx) lx ly sz sz 1
              in (markVisited localVisited lx ly subSize,
                  fillers @ [\<lparr>blob_x = x + lx, blob_y = y + ly, blob_size = subSize\<rparr>]))))"

definition cornerFillers :: "nat \<Rightarrow> nat \<Rightarrow> nat \<Rightarrow> real \<Rightarrow> blob list" where
  "cornerFillers x y sz pixelGap =
     snd (fold (fillStep x y sz) (List.product [0..<sz] [0..<sz])
            (localVisited_init sz pixelGap, []))"

text \<open>
  Lines 186-276: the row-major scan. One step at the cell \<open>(x, y)\<close> either skips a
  visited cell or emits the blob anchored there, followed by its corner fillers. The
  state is the \<open>visited\<close> array and the output so far, one entry per anchor: the anchor's
  blob and the fillers pushed after it.
\<close>

definition scanStep ::
  "rgb option list list \<Rightarrow> real \<Rightarrow> real \<Rightarrow> nat \<Rightarrow> nat \<Rightarrow> nat \<times> nat
     \<Rightarrow> bool list list \<times> (blob \<times> blob list) list \<Rightarrow> bool list list \<times> (blob \<times> blob list) list" where
  "scanStep colorGrid similaritySensitivity pixelGap gridWidth gridHeight p st =
     (case p of (y, x) \<Rightarrow>
      (case st of (visited, out) \<Rightarrow>
        if visited ! y ! x then st
        else (let sz = findMaxBlobSize colorGrid visited similaritySensitivity x y
                         gridWidth gridHeight True
              in (markVisited visited x y sz,
                  out @ [(\<lparr>blob_x = x, blob_y = y, blob_size = sz\<rparr>,
                          if sz > 1 then cornerFillers x y sz pixelGap else [])]))))"

definition blobScan ::
  "rgb option list list \<Rightarrow> real \<Rightarrow> real \<Rightarrow> nat \<Rightarrow> nat
     \<Rightarrow> bool list list \<times> (blob \<times> blob list) list" where
  "blobScan colorGrid similaritySensitivity pixelGap gridWidth gridHeight =
     fold (scanStep colorGrid similaritySensitivity pixelGap gridWidth gridHeight)
       (List.product [0..<gridHeight] [0..<gridWidth])
       (replicate gridHeight (replicate gridWidth False), [])"

definition anchorBlobs ::
  "rgb option list list \<Rightarrow> real \<Rightarrow> real \<Rightarrow> nat \<Rightarrow> nat \<Rightarrow> blob list" where
  "anchorBlobs colorGrid similaritySensitivity pixelGap gridWidth gridHeight =
     map fst (snd (blobScan colorGrid similaritySensitivity pixelGap gridWidth gridHeight))"

definition fillerBlobs ::
  "rgb option list list \<Rightarrow> real \<Rightarrow> real \<Rightarrow> nat \<Rightarrow> nat \<Rightarrow> blob list" where
  "fillerBlobs colorGrid similaritySensitivity pixelGap gridWidth gridHeight =
     concat (map snd (snd (blobScan colorGrid similaritySensitivity pixelGap gridWidth gridHeight)))"

text \<open>The array \<open>blobs\<close> after the scan, in the order of the pushes.\<close>

definition blobs ::
  "rgb option list list \<Rightarrow> real \<Rightarrow> real \<Rightarrow> nat \<Rightarrow> nat \<Rightarrow> blob list" where
  "blobs colorGrid similaritySensitivity pixelGap gridWidth gridHeight =
     concat (map (\<lambda>g. fst g # snd g)
       (snd (blobScan colorGrid similaritySensitivity pixelGap gridWidth gridHeight)))"

text \<open>
  The cells of a blob's square, and the notions that the properties speak of. A
  \<open>visited\<close> array is well formed for a grid when it has \<open>gridHeight\<close> rows of
  \<open>gridWidth\<close> entries.
\<close>

definition wellFormed :: "nat \<Rightarrow> nat \<Rightarrow> 'a list list \<Rightarrow> bool" where
  "wellFormed gridWidth gridHeight v =
     (length v = gridHeight \<and> (\<forall>cy < gridHeight. length (v ! cy) = gridWidth))"

definition square :: "nat \<Rightarrow> nat \<Rightarrow> nat \<Rightarrow> (nat \<times> nat) set" where
  "square x y sz = {x ..< x + sz} \<times> {y ..< y + sz}"

definition cellsOf :: "blob \<Rightarrow> (nat \<times> nat) set" where
  "cellsOf b = square (blob_x b) (blob_y b) (blob_size b)"

definition insideGrid :: "nat \<Rightarrow> nat \<Rightarrow> blob \<Rightarrow> bool" where
  "insideGrid gridWidth gridHeight b =
     (1 \<le> blob_size b \<and> blob_x b + blob_size b \<le> gridWidth
      \<and> blob_y b + blob_size b \<le> gridHeight)"

fun disjointBlobs :: "blob list \<Rightarrow> bool" where
  "disjointBlobs [] = True"
| "disjointBlobs (b # bs) = ((\<forall>c \<in> set bs. cellsOf b \<inter> cellsOf c = {}) \<and> disjointBlobs bs)"

text \<open>
  The invariant of the row-major scan: the \<open>visited\<close> array is well formed and marks
  exactly the cells of the anchors emitted so far; every anchor lies inside the grid and
  each of its fillers inside it; the anchors are pairwise disjoint.
\<close>

definition scanInvariant ::
  "nat \<Rightarrow> nat \<Rightarrow> bool list list \<times> (blob \<times> blob list) list \<Rightarrow> bool" where
  "scanInvariant gridWidth gridHeight st =
     (wellFormed gridWidth gridHeight (fst st)
      \<and> (\<forall>cx < gridWidth. \<forall>cy < gridHeight.
            fst st ! cy ! cx = (\<exists>g \<in> set (snd st). (cx, cy) \<in> cellsOf (fst g)))
      \<and> (\<forall>g \<in> set (snd st). insideGrid gridWidth gridHeight (fst g)
            \<and> (\<forall>f \<in> set (snd g). 1 \<le> blob_size f \<and> cellsOf f \<subseteq> cellsOf (fst g)))
      \<and> disjointBlobs (map fst (snd st)))"

text \<open>
  The invariant of the corner filling of the blob of size \<open>sz\<close> at \<open>(x, y)\<close>: the
  local array is well formed and marks exactly the cells that the circle meets and the
  cells of the fillers emitted so far; every filler has a size of at least 1, lies inside
  the blob's square and on cells that the circle does not meet; the fillers are pairwise
  disjoint.
\<close>

definition fillInvariant ::
  "nat \<Rightarrow> nat \<Rightarrow> nat \<Rightarrow> real \<Rightarrow> bool list list \<times> blob list \<Rightarrow> bool" where
  "fillInvariant x y sz pixelGap st =
     (wellFormed sz sz (fst st)
      \<and> (\<forall>lx < sz. \<forall>ly < sz.
            fst st ! ly ! lx = (circleMeetsCell sz pixelGap lx ly
                                \<or> (\<exists>f \<in> set (snd st). (x + lx, y + ly) \<in> cellsOf f)))
      \<and> (\<forall>f \<in> set (snd st). 1 \<le> blob_size f \<and> cellsOf f \<subseteq> square x y sz
            \<and> (\<forall>c \<in> cellsOf f. \<not> circleMeetsCell sz pixelGap (fst c - x) (snd c - y)))
      \<and> disjointBlobs (snd st))"

text \<open>
  The cells of the square of blob \<open>b\<close> that the circle drawn for \<open>b\<close> does not meet.
\<close>

definition cornerCells :: "real \<Rightarrow> blob \<Rightarrow> (nat \<times> nat) set" where
  "cornerCells pixelGap b =
     {c \<in> cellsOf b. \<not> circleMeetsCell (blob_size b) pixelGap (fst c - blob_x b) (snd c - blob_y b)}"

definition sumSquares :: "blob list \<Rightarrow> nat" where
  "sumSquares bs = sum_list (map (\<lambda>b. blob_size b * blob_size b) bs)"

definition averageSize :: "blob list \<Rightarrow> real" where
  "averageSize bs = real (sum_list (map blob_size bs)) / real (length bs)"

text \<open>Lines 278-282 and 305-307: marker selection and the size threshold.\<close>

definition sortedAllBlobs :: "blob list \<Rightarrow> blob list" where
  "sortedAllBlobs bs = sort_key (\<lambda>b. - int (blob_size b)) bs"

definition markerCount :: "blob list \<Rightarrow> nat" where
  "markerCount bs = min (nat \<lceil>real (length (sortedAllBlobs bs)) * (4 / 100)\<rceil>) 5"

definition topBlobsForMarkers :: "blob list \<Rightarrow> blob list" where
  "topBlobsForMarkers bs = take (markerCount bs) (sortedAllBlobs bs)"

definition maxBlobSize :: "blob list \<Rightarrow> nat" where
  "maxBlobSize bs = fold (\<lambda>b mx. max mx (blob_size b)) bs 1"

definition sizeThreshold :: "real \<Rightarrow> blob list \<Rightarrow> real" where
  "sizeThreshold lowerLimit bs = (lowerLimit / 100) * real (maxBlobSize bs)"

definition filteredBlobs :: "real \<Rightarrow> blob list \<Rightarrow> blob list" where
  "filteredBlobs lowerLimit bs = filter (\<lambda>b. real (blob_size b) \<ge> sizeThreshold lowerLimit bs) bs"

section \<open>Photo Widget: sampled matrix and drawing (PhotoWidget.tsx)\<close>

record pixel =
  px_r :: int
  px_g :: int
  px_b :: int
  px_a :: int

text \<open>
  Lines 160-174: the matrix sampled from the RGBA bytes of the downsampled image. A cell
  whose alpha byte is at most 10 is \<open>null\<close>, which is \<open>None\<close> here.
\<close>

definition fullMatrix :: "nat \<Rightarrow> nat \<Rightarrow> int list \<Rightarrow> pixel option list list" where
  "fullMatrix gridWidth gridHeight imageData =
     map (\<lambda>y. map (\<lambda>x. (let i = (y * gridWidth + x) * 4
                        in if imageData ! (i + 3) \<le> 10 then None
                           else Some \<lparr>px_r = js_round (max 0 (min 255 (real_of_int (imageData ! i)))),
                                      px_g = js_round (max 0 (min 255 (real_of_int (imageData ! (i + 1))))),
                                      px_b = js_round (max 0 (min 255 (real_of_int (imageData ! (i + 2))))),
                                      px_a = imageData ! (i + 3)\<rparr>))
                [0..<gridWidth])
         [0..<gridHeight]"

text \<open>
  \<open>drawPhotoWidgetMatrix\<close> (lines 34-110). The canvas is the list of the operations
  performed on it: the background, then one filled shape per drawn cell, tagged with the
  cell it was drawn for and its fill colour.
\<close>

datatype outputMode = Transparent | Dark | Light

datatype shape = Arc real real real | Rect real real real real

datatype canvasOp =
    ClearRect real real
  | FillBackground string real real
  | Dot "nat \<times> nat" "int \<times> int \<times> int" shape

text \<open>
  \<open>matrix[y][x]\<close>: an index outside the array gives \<open>undefined\<close>, which the test
  \<open>if (pixel)\<close> treats like \<open>null\<close>.
\<close>

definition cellAt :: "pixel option list list \<Rightarrow> nat \<Rightarrow> nat \<Rightarrow> pixel option" where
  "cellAt matrix y x =
     (if y < length matrix \<and> x < length (matrix ! y) then matrix ! y ! x else None)"

text \<open>Lines 84-107: what is drawn for the pixel of cell \<open>(x, y)\<close>.\<close>

definition drawPixel ::
  "bool \<Rightarrow> bool \<Rightarrow> real \<Rightarrow> real \<Rightarrow> real \<Rightarrow> real \<Rightarrow> real \<Rightarrow> real \<Rightarrow> nat \<Rightarrow> nat \<Rightarrow> pixel
     \<Rightarrow> canvasOp list" where
  "drawPixel isCircular isAntiAliased offsetX offsetY cellWidth cellHeight pixelWidth pixelHeight
       x y p =
     (let coverage = real_of_int (px_a p) / 255;
          sizeMultiplier = sqrt coverage;
          finalPixelWidth = (if isAntiAliased then pixelWidth * sizeMultiplier else pixelWidth);
          finalPixelHeight = (if isAntiAliased then pixelHeight * sizeMultiplier else pixelHeight);
          fillStyle = (px_r p, px_g p, px_b p);
          cellX = offsetX + real x * cellWidth; cellY = offsetY + real y * cellHeight
      in if isCircular
         then (let r = min finalPixelWidth finalPixelHeight / 2
               in if r > 1 / 10
                  then [Dot (x, y) fillStyle (Arc (cellX + cellWidth / 2) (cellY + cellHeight / 2) r)]
                  else [])
         else (if finalPixelWidth > 1 / 10 \<and> finalPixelHeight > 1 / 10
               then [Dot (x, y) fillStyle
                       (Rect (cellX + (cellWidth - finalPixelWidth) / 2)
                             (cellY + (cellHeight - finalPixelHeight) / 2)
                             finalPixelWidth finalPixelHeight)]
               else []))"

text \<open>Lines 81-109: the loop over the cells, rows outermost.\<close>

definition drawCells ::
  "bool \<Rightarrow> bool \<Rightarrow> real \<Rightarrow> real \<Rightarrow> real \<Rightarrow> real \<Rightarrow> real \<Rightarrow> real \<Rightarrow> pixel option list list
     \<Rightarrow> nat \<Rightarrow> nat \<Rightarrow> canvasOp list" where
  "drawCells isCircular isAntiAliased offsetX offsetY cellWidth cellHeight pixelWidth pixelHeight
       matrix gridWidth gridHeight =
     concat (map (\<lambda>y. concat (map (\<lambda>x.
       (case cellAt matrix y x of
          None \<Rightarrow> []
        | Some p \<Rightarrow> drawPixel isCircular isAntiAliased offsetX offsetY
                     cellWidth cellHeight pixelWidth pixelHeight x y p))
       [0..<gridWidth])) [0..<gridHeight])"

definition drawPhotoWidgetMatrix ::
  "real \<Rightarrow> real \<Rightarrow> outputMode \<Rightarrow> pixel option list list \<Rightarrow> real \<Rightarrow> bool \<Rightarrow> bool
     \<Rightarrow> canvasOp list" where
  "drawPhotoWidgetMatrix width height mode matrix pixelGap isCircular isAntiAliased =
     (case mode of
        Transparent \<Rightarrow> ClearRect width height
      | Dark \<Rightarrow> FillBackground ''#1b1b1b'' width height
      | Light \<Rightarrow> FillBackground ''#f1f0f1'' width height)
     # (if matrix = [] \<or> hd matrix = [] then []
        else (let gridHeight = length matrix; gridWidth = length (hd matrix);
                  drawableWidth = width - 50 * 2; drawableHeight = height - 50 * 2;
                  matrixAspect = real gridWidth / real gridHeight;
                  fits = (drawableWidth / matrixAspect \<le> drawableHeight);
                  renderAreaWidth = (if fits then drawableWidth else drawableHeight * matrixAspect);
                  renderAreaHeight = (if fits then drawableWidth / matrixAspect else drawableHeight);
                  offsetX = 50 + (drawableWidth - renderAreaWidth) / 2;
                  offsetY = 50 + (drawableHeight - renderAreaHeight) / 2;
                  cellWidth = renderAreaWidth / real gridWidth;
                  cellHeight = renderAreaHeight / real gridHeight;
                  scaledPixelGap = pixelGap * (84 / 100);
                  gapRatio = ((28 / 100) * (scaledPixelGap * 5) / 100) * (2765 / 10000);
                  pixelWidth = cellWidth * (1 - gapRatio);
                  pixelHeight = cellHeight * (1 - gapRatio)
              in drawCells isCircular isAntiAliased offsetX offsetY cellWidth cellHeight
                   pixelWidth pixelHeight matrix gridWidth gridHeight))"

section \<open>Example grids\<close>

text \<open>A 7 x 7 grid of solid red, and a 3 x 4 grid with a dark-red pair and a red cell in
  its first row above three black rows.\<close>

definition grid7 :: "rgb option list list" where
  "grid7 = replicate 7 (replicate 7 (Some \<lparr>col_r = 255, col_g = 0, col_b = 0\<rparr>))"

definition grid3x4 :: "rgb option list list" where
  "grid3x4 =
     [[Some \<lparr>col_r = 10, col_g = 0, col_b = 0\<rparr>, Some \<lparr>col_r = 10, col_g = 0, col_b = 0\<rparr>,
       Some \<lparr>col_r = 255, col_g = 0, col_b = 0\<rparr>],
      replicate 3 (Some \<lparr>col_r = 0, col_g = 0, col_b = 0\<rparr>),
      replicate 3 (Some \<lparr>col_r = 0, col_g = 0, col_b = 0\<rparr>),
      replicate 3 (Some \<lparr>col_r = 0, col_g = 0, col_b = 0\<rparr>)]"

text \<open>Twenty-six blobs: one of size 7 and a row of 25 of size 1.\<close>

definition blobs26 :: "blob list" where
  "blobs26 = \<lparr>blob_x = 0, blob_y = 0, blob_size = 7\<rparr>
               # map (\<lambda>i. \<lparr>blob_x = i, blob_y = 7, blob_size = 1\<rparr>) [0..<25]"

section \<open>Colour transforms: results\<close>

lemma js_round_of_int: "js_round (of_int n) = n"
  by (simp add: js_round_def)

lemma simulateCmyk_exact:
  fixes r g b :: int
  assumes "0 \<le> r" "r \<le> 255" "0 \<le> g" "g \<le> 255" "0 \<le> b" "b \<le> 255"
  shows "simulateCmyk (of_int r) (of_int g) (of_int b) = Some (r, g, b)"
proof (cases "r = 0 \<and> g = 0 \<and> b = 0")
  case True
  then show ?thesis
    by (simp add: simulateCmyk_def rgbToCmyk_def cmykToRgb_def js_round_def)
next
  case False
  define mx :: real where "mx = max (max (of_int r / 255) (of_int g / 255)) (of_int b / 255)"
  have pos: "0 < mx"
    using False assms unfolding mx_def by (auto simp: max_def)
  have ch: "255 * (1 - (1 - v / 255 - (1 - mx)) / (1 - (1 - mx))) * (1 - (1 - mx)) = v"
    for v :: real
    using pos by (simp add: field_simps)
  have "rgbToCmyk (of_int r) (of_int g) (of_int b) =
          Some ((1 - of_int r / 255 - (1 - mx)) / (1 - (1 - mx)),
                (1 - of_int g / 255 - (1 - mx)) / (1 - (1 - mx)),
                (1 - of_int b / 255 - (1 - mx)) / (1 - (1 - mx)), 1 - mx)"
    using pos by (simp add: rgbToCmyk_def Let_def js_div_def mx_def [symmetric])
  then show ?thesis
    by (simp only: simulateCmyk_def option.case prod.case cmykToRgb_def ch js_round_of_int)
qed

text \<open>
  Claim C6. With the neutral settings \<open>exposure = 50\<close> and \<open>contrast = 50\<close> the remap
  of the Value Aliasing transform and the remap of the Glyph Mirror transform (with or
  without a loaded image) both return every integer luminance in 0..255 unchanged.
\<close>

theorem neutral_remap_identity:
  fixes l :: int
  assumes "0 \<le> l" and "l \<le> 255"
  shows "calculatedContrast 50 = 1 \<and> calculatedExposure 50 = 0
         \<and> finalGray_ValueAliasing 50 50 (of_int l) = l
         \<and> finalGray_Pfp imageSrc 50 50 (of_int l) = l"
proof -
  have c: "calculatedContrast 50 = 1" and e: "calculatedExposure 50 = 0"
    by (simp_all add: calculatedContrast_def calculatedExposure_def)
  have m: "max 0 (min 255 (real_of_int l)) = real_of_int l"
    using assms by simp
  have a: "((real_of_int l / 255 - 1 / 2) * 1 + 1 / 2) * 255 + 0 = real_of_int l"
    by simp
  show ?thesis
    by (simp only: c e finalGray_ValueAliasing_def finalGray_Pfp_def Let_def a m
        js_round_of_int if_cancel simp_thms)
qed

theorem neutral_remap_identity_witness:
  "(0::int) \<le> 128 \<and> (128::int) \<le> 255
   \<and> finalGray_ValueAliasing 50 50 (of_int 128) = 128
   \<and> finalGray_Pfp True 50 50 (of_int 128) = 128"
  using neutral_remap_identity [of 128 True] by simp

text \<open>
  Claim C5. For integer channels in 0..255, \<open>simulateCmyk\<close> (RGB to CMYK and back)
  returns a triple within 1 of the original in every channel, no division of the
  conversion has a zero divisor, and pure black takes the \<open>k = 1\<close> branch and comes
  back as exactly (0, 0, 0).
\<close>

theorem simulateCmyk_roundtrip:
  fixes r g b :: int
  assumes "0 \<le> r" "r \<le> 255" "0 \<le> g" "g \<le> 255" "0 \<le> b" "b \<le> 255"
  shows "(\<exists>r' g' b'. simulateCmyk (of_int r) (of_int g) (of_int b) = Some (r', g', b')
            \<and> \<bar>r' - r\<bar> \<le> 1 \<and> \<bar>g' - g\<bar> \<le> 1 \<and> \<bar>b' - b\<bar> \<le> 1)
         \<and> rgbToCmyk (of_int r) (of_int g) (of_int b) \<noteq> None
         \<and> rgbToCmyk 0 0 0 = Some (0, 0, 0, 1)
         \<and> simulateCmyk 0 0 0 = Some (0, 0, 0)"
proof -
  have ex: "simulateCmyk (of_int r) (of_int g) (of_int b) = Some (r, g, b)"
    using assms by (rule simulateCmyk_exact)
  then have some: "rgbToCmyk (of_int r) (of_int g) (of_int b) \<noteq> None"
    by (auto simp: simulateCmyk_def split: option.splits)
  have black: "rgbToCmyk 0 0 0 = Some (0, 0, 0, 1)"
    by (simp add: rgbToCmyk_def)
  then have "simulateCmyk 0 0 0 = Some (0, 0, 0)"
    by (simp add: simulateCmyk_def cmykToRgb_def js_round_def)
  with ex some black show ?thesis by simp
qed

theorem simulateCmyk_roundtrip_witness:
  "(\<exists>r' g' b'. simulateCmyk 200 100 50 = Some (r', g', b')
      \<and> \<bar>r' - 200\<bar> \<le> 1 \<and> \<bar>g' - 100\<bar> \<le> 1 \<and> \<bar>b' - 50\<bar> \<le> 1)
   \<and> rgbToCmyk 200 100 50 \<noteq> None"
  using simulateCmyk_roundtrip [of 200 100 50] by simp












section \<open>Coverage mask: results\<close>

lemma sqrt_le_iff_sq: "0 \<le> b \<Longrightarrow> (sqrt a \<le> b) = (a \<le> b\<^sup>2)"
  by (metis abs_of_nonneg real_sqrt_abs real_sqrt_le_iff)

lemma isOriginalPixel_sq:
  "isOriginalPixel d x y = ((real x - center d)\<^sup>2 + (real y - center d)\<^sup>2 \<le> (radius d)\<^sup>2)"
proof -
  have r: "0 \<le> radius d" by (simp add: radius_def)
  show ?thesis
    unfolding isOriginalPixel_def sqrt_le_iff_sq [OF r] ..
qed

lemma upt_5: "[0..<5] = [0, 1, 2, 3, 4]"
  by (simp add: upt_rec)

lemma matrixMask_nth:
  "x < d \<Longrightarrow> y < d \<Longrightarrow> matrixMask isAntiAliased d ! y ! x = maskCell isAntiAliased d x y"
  by (simp add: matrixMask_def)

lemma length_filter_full: "(length (filter P xs) = length xs) = (\<forall>x \<in> set xs. P x)"
proof (induction xs)
  case Nil
  then show ?case by simp
next
  case (Cons a xs)
  have "length (filter P xs) \<noteq> Suc (length xs)"
    using length_filter_le [of P xs] by linarith
  with Cons show ?case by auto
qed

lemma pointsInside_full:
  "(pointsInside d x y = 25) = (\<forall>s \<in> set (List.product [0..<5] [0..<5]). subSampleInside d x y s)"
proof -
  have "length (List.product [0..<5] [0..<5]) = (25::nat)" by simp
  then show ?thesis
    unfolding pointsInside_def using length_filter_full [of "subSampleInside d x y"] by metis
qed

lemma subSampleInside_sq:
  "subSampleInside d x y (subY, subX) =
     ((real x - center d + (real subX - 2) / 5)\<^sup>2 + (real y - center d + (real subY - 2) / 5)\<^sup>2
        \<le> (radius d)\<^sup>2)"
proof -
  have r: "0 \<le> radius d" by (simp add: radius_def)
  have ex: "(real v - 1 / 2 + (1 / 5) * (real n + 1 / 2)) - center d
            = real v - center d + (real n - 2) / 5" for v n
    by (simp add: field_simps)
  show ?thesis
    unfolding subSampleInside_def prod.case Let_def ex sqrt_le_iff_sq [OF r]
    by (simp add: power2_eq_square)
qed

lemma offset_sq_le:
  fixes u :: real
  assumes "n < (5::nat)"
  shows "(u + (real n - 2) / 5)\<^sup>2 \<le> (\<bar>u\<bar> + 2 / 5)\<^sup>2"
proof -
  have "\<bar>(real n - 2) / 5\<bar> \<le> 2 / 5" using assms by (simp add: abs_le_iff) 
  then have "\<bar>u + (real n - 2) / 5\<bar> \<le> \<bar>u\<bar> + 2 / 5" by linarith
  then have "\<bar>u + (real n - 2) / 5\<bar> \<le> \<bar>\<bar>u\<bar> + 2 / 5\<bar>" by linarith
  then show ?thesis by (simp only: abs_le_square_iff)
qed

lemma offset_sq_attained:
  fixes u :: real
  shows "\<exists>n < (5::nat). (u + (real n - 2) / 5)\<^sup>2 = (\<bar>u\<bar> + 2 / 5)\<^sup>2"
proof (cases "0 \<le> u")
  case True
  then have "(u + (real 4 - 2) / 5)\<^sup>2 = (\<bar>u\<bar> + 2 / 5)\<^sup>2" by simp
  then show ?thesis by (intro exI [of _ 4]) simp
next
  case False
  then have "(u + (real 0 - 2) / 5)\<^sup>2 = (\<bar>u\<bar> + 2 / 5)\<^sup>2"
    by (simp add: power2_eq_square algebra_simps)
  then show ?thesis by (intro exI [of _ 0]) simp
qed

lemma fullSupersampling_one:
  "(fullSupersampling d x y = 1) =
     ((\<bar>real x - center d\<bar> + 2 / 5)\<^sup>2 + (\<bar>real y - center d\<bar> + 2 / 5)\<^sup>2 \<le> (radius d)\<^sup>2)"
proof -
  have "(fullSupersampling d x y = 1) = (pointsInside d x y = 25)"
    by (simp add: fullSupersampling_def)
  also have "\<dots> = (\<forall>sy < 5. \<forall>sx < 5. subSampleInside d x y (sy, sx))"
    by (auto simp: pointsInside_full)
  also have "\<dots> = ((\<bar>real x - center d\<bar> + 2 / 5)\<^sup>2 + (\<bar>real y - center d\<bar> + 2 / 5)\<^sup>2
                     \<le> (radius d)\<^sup>2)"
  proof
    assume all: "\<forall>sy < 5. \<forall>sx < 5. subSampleInside d x y (sy, sx)"
    obtain sx where sx: "sx < 5"
      "(real x - center d + (real sx - 2) / 5)\<^sup>2 = (\<bar>real x - center d\<bar> + 2 / 5)\<^sup>2"
      using offset_sq_attained by blast
    obtain sy where sy: "sy < 5"
      "(real y - center d + (real sy - 2) / 5)\<^sup>2 = (\<bar>real y - center d\<bar> + 2 / 5)\<^sup>2"
      using offset_sq_attained by blast
    from all sx(1) sy(1) have "subSampleInside d x y (sy, sx)" by blast
    then show "(\<bar>real x - center d\<bar> + 2 / 5)\<^sup>2 + (\<bar>real y - center d\<bar> + 2 / 5)\<^sup>2
                 \<le> (radius d)\<^sup>2"
      by (simp only: subSampleInside_sq sx(2) sy(2))
  next
    assume far: "(\<bar>real x - center d\<bar> + 2 / 5)\<^sup>2 + (\<bar>real y - center d\<bar> + 2 / 5)\<^sup>2
                   \<le> (radius d)\<^sup>2"
    show "\<forall>sy < 5. \<forall>sx < 5. subSampleInside d x y (sy, sx)"
    proof (intro allI impI)
      fix sy sx :: nat
      assume "sy < 5" "sx < 5"
      then have "(real x - center d + (real sx - 2) / 5)\<^sup>2 \<le> (\<bar>real x - center d\<bar> + 2 / 5)\<^sup>2"
        and "(real y - center d + (real sy - 2) / 5)\<^sup>2 \<le> (\<bar>real y - center d\<bar> + 2 / 5)\<^sup>2"
        by (simp_all only: offset_sq_le)
      with far show "subSampleInside d x y (sy, sx)"
        unfolding subSampleInside_sq by linarith
    qed
  qed
  finally show ?thesis .
qed

text \<open>
  Claim C7, as stated, at a concrete input: for diameter 9 (resolution 0) the centre of
  cell (7, 7) is within the radius, so the shortcut gives coverage 1, while only 19 of
  its 25 sub-samples are within the radius.
\<close>

theorem shortcut_supersampling_counterexample:
  "diameter 0 = 9 \<and> isOriginalPixel 9 7 7 \<and> matrixMask True 9 ! 7 ! 7 = 1 \<and> fullSupersampling 9 7 7 = 19 / 25
   \<and> matrixMask True 9 ! 7 ! 7 \<noteq> fullSupersampling 9 7 7"
proof -
  have o: "isOriginalPixel 9 7 7"
    by (simp add: isOriginalPixel_sq radius_def center_def power2_eq_square)
  have "pointsInside 9 7 7 = 19"
    by (simp add: pointsInside_def upt_5 subSampleInside_sq radius_def center_def
        power2_eq_square)
  then have f: "fullSupersampling 9 7 7 = 19 / 25"
    by (simp add: fullSupersampling_def)
  have m: "matrixMask True 9 ! 7 ! 7 = 1"
    using o by (simp add: matrixMask_nth maskCell_def)
  have d: "diameter 0 = 9"
    by (simp add: diameter_def)
  from d o f m show ?thesis by simp
qed

text \<open>
  Claim C7, amended. Every cell whose centre lies within the radius gets coverage 1 from
  the shortcut. The full 5 x 5 supersampling of such a cell gives 1 as well exactly when
  its farthest sub-sample, 2/5 of a cell beyond the cell centre in each axis, is still
  within the radius; nearer to the rim the supersampling would give less than 1.
\<close>

theorem shortcut_agrees_with_supersampling:
  assumes "x < d" and "y < d" and "isOriginalPixel d x y"
  shows "matrixMask True d ! y ! x = 1
         \<and> ((fullSupersampling d x y = matrixMask True d ! y ! x) =
              ((\<bar>real x - center d\<bar> + 2 / 5)\<^sup>2 + (\<bar>real y - center d\<bar> + 2 / 5)\<^sup>2
                 \<le> (radius d)\<^sup>2))"
proof -
  have m: "matrixMask True d ! y ! x = 1"
    using assms by (simp add: matrixMask_nth maskCell_def)
  show ?thesis
    by (simp only: m fullSupersampling_one simp_thms)
qed

theorem shortcut_agrees_with_supersampling_witness:
  "(4::nat) < 9 \<and> (5::nat) < 9 \<and> isOriginalPixel 9 4 5
   \<and> matrixMask True 9 ! 5 ! 4 = 1 \<and> fullSupersampling 9 4 5 = matrixMask True 9 ! 5 ! 4"
proof -
  have o: "isOriginalPixel 9 4 5"
    by (simp add: isOriginalPixel_sq radius_def center_def power2_eq_square)
  have far: "(\<bar>real 4 - center 9\<bar> + 2 / 5)\<^sup>2 + (\<bar>real 5 - center 9\<bar> + 2 / 5)\<^sup>2 \<le> (radius 9)\<^sup>2"
    by (simp add: radius_def center_def power2_eq_square)
  show ?thesis
    using shortcut_agrees_with_supersampling [of 4 9 5, OF _ _ o] o far by simp
qed

section \<open>Blob detection: evaluating the colour test\<close>

lemma less_sqrt_iff:
  assumes "0 \<le> s"
  shows "(t < sqrt s) = (t < 0 \<or> t * t < s)"
proof (cases "t < 0")
  case True
  moreover have "0 \<le> sqrt s" using assms by simp
  ultimately show ?thesis by linarith
next
  case False
  then have "(t < sqrt s) = (sqrt (t * t) < sqrt s)" by simp
  also have "\<dots> = (t * t < s)" by (rule real_sqrt_less_iff)
  finally show ?thesis using False by simp
qed

lemma tooDistant_code [code]:
  "tooDistant c1 c2 t =
     (case c1 of None \<Rightarrow> True
      | Some p \<Rightarrow>
        (case c2 of None \<Rightarrow> True
         | Some q \<Rightarrow>
           (let dr = col_r p - col_r q; dg = col_g p - col_g q; db = col_b p - col_b q
            in t < 0 \<or> t * t < real_of_int (dr * dr + dg * dg + db * db))))"
proof -
  have "0 \<le> real_of_int (a * a + b * b + c * c)" for a b c :: int
    by simp
  then show ?thesis
    by (simp add: tooDistant_def exceeds_def colorDistance_def Let_def less_sqrt_iff
        split: option.splits)
qed

section \<open>Blob detection: marking cells\<close>

lemma in_square: "((cx, cy) \<in> square x y sz) = (x \<le> cx \<and> cx < x + sz \<and> y \<le> cy \<and> cy < y + sz)"
  by (auto simp: square_def)

lemma markRow_Suc: "markRow row x (Suc n) = (markRow row x n)[x + n := True]"
  by (simp add: markRow_def)

lemma length_markRow [simp]: "length (markRow row x n) = length row"
  by (induction n) (simp_all add: markRow_Suc, simp add: markRow_def)

lemma markRow_nth:
  "i < length row \<Longrightarrow> markRow row x n ! i = (row ! i \<or> (x \<le> i \<and> i < x + n))"
proof (induction n)
  case 0
  then show ?case by (auto simp: markRow_def)
next
  case (Suc n)
  then show ?case
    by (cases "i = x + n") (auto simp: markRow_Suc nth_list_update)
qed

lemma markRows_Suc:
  "markRows v x y w (Suc n) = (markRows v x y w n)[y + n := markRow (markRows v x y w n ! (y + n)) x w]"
  by (simp add: markRows_def)

lemma length_markRows [simp]: "length (markRows v x y w n) = length v"
  by (induction n) (simp_all add: markRows_Suc, simp add: markRows_def)

lemma markRows_nth:
  "cy < length v \<Longrightarrow>
     markRows v x y w n ! cy = (if y \<le> cy \<and> cy < y + n then markRow (v ! cy) x w else v ! cy)"
proof (induction n)
  case 0
  then show ?case by (auto simp: markRows_def)
next
  case (Suc n)
  then show ?case
    by (cases "cy = y + n") (auto simp: markRows_Suc nth_list_update)
qed

lemma markVisited_markRows: "markVisited v x y sz = markRows v x y sz sz"
  by (simp add: markVisited_def markRows_def)

lemma wellFormed_markVisited:
  "wellFormed gw gh v \<Longrightarrow> wellFormed gw gh (markVisited v x y sz)"
  by (simp add: wellFormed_def markVisited_markRows markRows_nth)

lemma markVisited_nth:
  assumes "wellFormed gw gh v" and "cx < gw" and "cy < gh"
  shows "markVisited v x y sz ! cy ! cx = (v ! cy ! cx \<or> (cx, cy) \<in> square x y sz)"
  using assms
  by (auto simp: wellFormed_def markVisited_markRows markRows_nth markRow_nth in_square)

section \<open>Blob detection: the growth loop\<close>

lemma growSquare_ge: "currentSize \<le> growSquare blocked sx sy lx ly currentSize"
proof (induction blocked sx sy lx ly currentSize rule: growSquare.induct)
  case (1 blocked sx sy lx ly currentSize)
  show ?case
    using "1.IH" by (subst growSquare.simps) auto
qed

lemma growSquare_within:
  "sx + currentSize \<le> lx \<Longrightarrow> sy + currentSize \<le> ly \<Longrightarrow>
     sx + growSquare blocked sx sy lx ly currentSize \<le> lx
     \<and> sy + growSquare blocked sx sy lx ly currentSize \<le> ly"
proof (induction blocked sx sy lx ly currentSize rule: growSquare.induct)
  case (1 blocked sx sy lx ly currentSize)
  show ?case
    using "1.IH" "1.prems" by (subst (1 2) growSquare.simps) auto
qed

lemma growSquare_free:
  "(\<And>cx cy. q cx cy \<Longrightarrow> blocked cx cy) \<Longrightarrow>
   (\<forall>c \<in> square sx sy currentSize. \<not> q (fst c) (snd c)) \<Longrightarrow>
   (\<forall>c \<in> square sx sy (growSquare blocked sx sy lx ly currentSize). \<not> q (fst c) (snd c))"
proof (induction blocked sx sy lx ly currentSize rule: growSquare.induct)
  case (1 blocked sx sy lx ly currentSize)
  note blocked = "1.prems"(1)
  show ?case
  proof (cases "(sy + (currentSize + 1) > ly \<or> sx + (currentSize + 1) > lx)
      \<or> list_ex (\<lambda>i. blocked (sx + currentSize) (sy + i)) [0..<currentSize + 1]
      \<or> list_ex (\<lambda>i. blocked (sx + i) (sy + currentSize)) [0..<currentSize]")
    case True
    then have "growSquare blocked sx sy lx ly currentSize = currentSize"
      by (subst growSquare.simps) auto
    with "1.prems"(2) show ?thesis by simp
  next
    case False
    then have eq: "growSquare blocked sx sy lx ly currentSize
                   = growSquare blocked sx sy lx ly (currentSize + 1)"
      by (subst growSquare.simps) auto
    from False have col: "\<And>i. i < currentSize + 1 \<Longrightarrow> \<not> blocked (sx + currentSize) (sy + i)"
      and row: "\<And>i. i < currentSize \<Longrightarrow> \<not> blocked (sx + i) (sy + currentSize)"
      by (auto simp: list_ex_iff less_Suc_eq)
    have "\<forall>c \<in> square sx sy (currentSize + 1). \<not> q (fst c) (snd c)"
    proof
      fix c assume c: "c \<in> square sx sy (currentSize + 1)"
      obtain cx cy where [simp]: "c = (cx, cy)" by (cases c)
      from c have b: "sx \<le> cx" "cx < sx + currentSize + 1" "sy \<le> cy" "cy < sy + currentSize + 1"
        by (auto simp: in_square)
      show "\<not> q (fst c) (snd c)"
      proof (cases "cx = sx + currentSize")
        case True
        with b col [of "cy - sy"] have "\<not> blocked cx cy" by simp
        with blocked show ?thesis by auto
      next
        case ncol: False
        show ?thesis
        proof (cases "cy = sy + currentSize")
          case True
          with b ncol row [of "cx - sx"] have "\<not> blocked cx cy" by simp
          with blocked show ?thesis by auto
        next
          case False
          with b ncol have "(cx, cy) \<in> square sx sy currentSize"
            by (auto simp: in_square)
          with "1.prems"(2) show ?thesis by auto
        qed
      qed
    qed
    with "1.IH" False blocked have
      "\<forall>c \<in> square sx sy (growSquare blocked sx sy lx ly (currentSize + 1)). \<not> q (fst c) (snd c)"
      by auto
    with eq show ?thesis by simp
  qed
qed

section \<open>Blob detection: the corner fillers\<close>

lemma fold_invariant:
  assumes "I st" and "\<And>p s. p \<in> set ps \<Longrightarrow> I s \<Longrightarrow> I (f p s)"
  shows "I (fold f ps st)"
  using assms by (induction ps arbitrary: st) auto

lemma square_subset:
  "x \<le> x' \<Longrightarrow> x' + s' \<le> x + s \<Longrightarrow> y \<le> y' \<Longrightarrow> y' + s' \<le> y + s \<Longrightarrow>
     square x' y' s' \<subseteq> square x y s"
  by (auto simp: square_def)

lemma fillStep_inside:
  assumes "lx < sz" and "ly < sz"
    and "\<forall>f \<in> set (snd st). 1 \<le> blob_size f \<and> cellsOf f \<subseteq> square x y sz"
  shows "\<forall>f \<in> set (snd (fillStep x y sz (ly, lx) st)).
           1 \<le> blob_size f \<and> cellsOf f \<subseteq> square x y sz"
proof (cases st)
  case (Pair localVisited fillers)
  define subSize where "subSize = growSquare (\<lambda>cx cy. localVisited ! cy ! cx) lx ly sz sz 1"
  have ge: "1 \<le> subSize"
    unfolding subSize_def by (rule growSquare_ge)
  have "lx + subSize \<le> sz \<and> ly + subSize \<le> sz"
    unfolding subSize_def using assms(1,2) by (intro growSquare_within) simp_all
  then have "square (x + lx) (y + ly) subSize \<subseteq> square x y sz"
    by (intro square_subset) simp_all
  then have new: "cellsOf \<lparr>blob_x = x + lx, blob_y = y + ly, blob_size = subSize\<rparr>
                    \<subseteq> square x y sz"
    by (simp add: cellsOf_def)
  have step: "fillStep x y sz (ly, lx) st =
      (if localVisited ! ly ! lx then st
       else (markVisited localVisited lx ly subSize,
             fillers @ [\<lparr>blob_x = x + lx, blob_y = y + ly, blob_size = subSize\<rparr>]))"
    by (simp only: fillStep_def Pair prod.case Let_def subSize_def)
  show ?thesis
  proof (cases "localVisited ! ly ! lx")
    case True
    with step assms(3) show ?thesis by simp
  next
    case False
    with step have "snd (fillStep x y sz (ly, lx) st)
        = fillers @ [\<lparr>blob_x = x + lx, blob_y = y + ly, blob_size = subSize\<rparr>]"
      by simp
    moreover from assms(3) Pair
    have "\<forall>f \<in> set fillers. 1 \<le> blob_size f \<and> cellsOf f \<subseteq> square x y sz"
      by simp
    ultimately show ?thesis
      using ge new by simp
  qed
qed

lemma cornerFillers_inside:
  assumes "f \<in> set (cornerFillers x y sz pixelGap)"
  shows "1 \<le> blob_size f \<and> cellsOf f \<subseteq> square x y sz"
proof -
  let ?I = "\<lambda>s :: bool list list \<times> blob list.
              \<forall>f \<in> set (snd s). 1 \<le> blob_size f \<and> cellsOf f \<subseteq> square x y sz"
  have "?I (fold (fillStep x y sz) (List.product [0..<sz] [0..<sz])
              (localVisited_init sz pixelGap, []))"
  proof (rule fold_invariant [where I = ?I])
    show "?I (localVisited_init sz pixelGap, [])"
      by simp
  next
    fix p and s :: "bool list list \<times> blob list"
    assume p: "p \<in> set (List.product [0..<sz] [0..<sz])" and s: "?I s"
    obtain ly lx where pq: "p = (ly, lx)" by (cases p)
    from p have "lx < sz" "ly < sz" unfolding pq by simp_all
    then show "?I (fillStep x y sz p s)"
      unfolding pq using s by (rule fillStep_inside)
  qed
  with assms show ?thesis
    unfolding cornerFillers_def by blast
qed

section \<open>Blob detection: the row-major scan\<close>

lemma disjointBlobs_snoc:
  "disjointBlobs (bs @ [b]) = (disjointBlobs bs \<and> (\<forall>c \<in> set bs. cellsOf c \<inter> cellsOf b = {}))"
  by (induction bs) auto

lemma scanInvariant_init: "scanInvariant gw gh (replicate gh (replicate gw False), [])"
  by (simp add: scanInvariant_def wellFormed_def)

lemma findMaxBlobSize_square:
  assumes "x < gw" and "y < gh" and "\<not> v ! y ! x"
  shows "1 \<le> findMaxBlobSize G v sens x y gw gh chk
         \<and> x + findMaxBlobSize G v sens x y gw gh chk \<le> gw
         \<and> y + findMaxBlobSize G v sens x y gw gh chk \<le> gh
         \<and> (\<forall>c \<in> square x y (findMaxBlobSize G v sens x y gw gh chk). \<not> v ! snd c ! fst c)"
proof (cases "sens = 0")
  case True
  with assms show ?thesis
    by (auto simp: findMaxBlobSize_def square_def)
next
  case False
  define blocked where "blocked = (\<lambda>cx cy. v ! cy ! cx
      \<or> (chk \<and> tooDistant (G ! y ! x) (G ! cy ! cx) (similarityThreshold sens)))"
  have eq: "findMaxBlobSize G v sens x y gw gh chk = growSquare blocked x y gw gh 1"
    using False by (simp add: findMaxBlobSize_def blocked_def)
  have one: "\<forall>c \<in> square x y 1. \<not> (\<lambda>cx cy. v ! cy ! cx) (fst c) (snd c)"
    using assms(3) by (auto simp: square_def)
  have free: "\<forall>c \<in> square x y (growSquare blocked x y gw gh 1).
                \<not> (\<lambda>cx cy. v ! cy ! cx) (fst c) (snd c)"
    by (rule growSquare_free [OF _ one]) (simp add: blocked_def)
  have "x + growSquare blocked x y gw gh 1 \<le> gw \<and> y + growSquare blocked x y gw gh 1 \<le> gh"
    using assms(1,2) by (intro growSquare_within) simp_all
  with free growSquare_ge [of 1 blocked x y gw gh] show ?thesis
    unfolding eq by simp
qed

lemma scanStep_invariant:
  assumes inv: "scanInvariant gw gh st" and x: "x < gw" and y: "y < gh"
  shows "scanInvariant gw gh (scanStep G sens pixelGap gw gh (y, x) st)
         \<and> fst (scanStep G sens pixelGap gw gh (y, x) st) ! y ! x
         \<and> (\<forall>cx < gw. \<forall>cy < gh. fst st ! cy ! cx \<longrightarrow>
               fst (scanStep G sens pixelGap gw gh (y, x) st) ! cy ! cx)"
proof (cases st)
  case (Pair v out)
  show ?thesis
  proof (cases "v ! y ! x")
    case True
    with inv Pair show ?thesis by (simp add: scanStep_def)
  next
    case False
    define sz where "sz = findMaxBlobSize G v sens x y gw gh True"
    define b where "b = \<lparr>blob_x = x, blob_y = y, blob_size = sz\<rparr>"
    define fs where "fs = (if sz > 1 then cornerFillers x y sz pixelGap else [])"
    have step: "scanStep G sens pixelGap gw gh (y, x) st = (markVisited v x y sz, out @ [(b, fs)])"
      using False Pair by (simp add: scanStep_def Let_def sz_def b_def fs_def)
    have cb: "cellsOf b = square x y sz"
      by (simp add: cellsOf_def b_def)
    from findMaxBlobSize_square [OF x y False, of G sens True]
    have sz1: "1 \<le> sz" and szx: "x + sz \<le> gw" and szy: "y + sz \<le> gh"
      and free: "\<forall>c \<in> square x y sz. \<not> v ! snd c ! fst c"
      by (simp_all add: sz_def)
    from inv Pair have wf: "wellFormed gw gh v"
      and vis: "\<And>cx cy. cx < gw \<Longrightarrow> cy < gh \<Longrightarrow>
                  v ! cy ! cx = (\<exists>g \<in> set out. (cx, cy) \<in> cellsOf (fst g))"
      and ins: "\<forall>g \<in> set out. insideGrid gw gh (fst g)
                  \<and> (\<forall>f \<in> set (snd g). 1 \<le> blob_size f \<and> cellsOf f \<subseteq> cellsOf (fst g))"
      and dis: "disjointBlobs (map fst out)"
      by (simp_all add: scanInvariant_def)
    have wf': "wellFormed gw gh (markVisited v x y sz)"
      using wf by (rule wellFormed_markVisited)
    have vis': "markVisited v x y sz ! cy ! cx
                  = (\<exists>g \<in> set (out @ [(b, fs)]). (cx, cy) \<in> cellsOf (fst g))"
      if "cx < gw" "cy < gh" for cx cy
      using that vis [OF that] by (auto simp: markVisited_nth [OF wf] cb)
    have insb: "insideGrid gw gh b"
      using sz1 szx szy by (simp add: insideGrid_def b_def)
    have fsb: "\<forall>f \<in> set fs. 1 \<le> blob_size f \<and> cellsOf f \<subseteq> cellsOf b"
      using cornerFillers_inside [of _ x y sz pixelGap] by (auto simp: fs_def cb)
    have disb: "\<forall>c \<in> set (map fst out). cellsOf c \<inter> cellsOf b = {}"
    proof (intro ballI)
      fix c assume c: "c \<in> set (map fst out)"
      show "cellsOf c \<inter> cellsOf b = {}"
      proof (rule ccontr)
        assume "cellsOf c \<inter> cellsOf b \<noteq> {}"
        then obtain cx cy where in_c: "(cx, cy) \<in> cellsOf c" and in_b: "(cx, cy) \<in> square x y sz"
          by (auto simp: cb)
        from in_b szx szy have "cx < gw" "cy < gh" by (auto simp: in_square)
        with vis in_c c have "v ! cy ! cx" by auto
        with free in_b show False by auto
      qed
    qed
    have inv': "scanInvariant gw gh (markVisited v x y sz, out @ [(b, fs)])"
      unfolding scanInvariant_def
      using wf' vis' ins insb fsb dis disb by (simp add: disjointBlobs_snoc)
    have here: "markVisited v x y sz ! y ! x"
      using sz1 x y by (simp add: markVisited_nth [OF wf] in_square)
    have mono: "\<forall>cx < gw. \<forall>cy < gh. v ! cy ! cx \<longrightarrow> markVisited v x y sz ! cy ! cx"
      by (simp add: markVisited_nth [OF wf])
    from inv' here mono show ?thesis
      unfolding step using Pair by simp
  qed
qed

lemma scan_fold:
  assumes "scanInvariant gw gh st" and "set ps \<subseteq> {0..<gh} \<times> {0..<gw}"
  shows "scanInvariant gw gh (fold (scanStep G sens pixelGap gw gh) ps st)
         \<and> (\<forall>p \<in> set ps. fst (fold (scanStep G sens pixelGap gw gh) ps st) ! fst p ! snd p)
         \<and> (\<forall>cx < gw. \<forall>cy < gh. fst st ! cy ! cx \<longrightarrow>
               fst (fold (scanStep G sens pixelGap gw gh) ps st) ! cy ! cx)"
  using assms
proof (induction ps arbitrary: st)
  case Nil
  then show ?case by simp
next
  case (Cons p ps)
  obtain y x where p: "p = (y, x)" by (cases p)
  with Cons.prems(2) have x: "x < gw" and y: "y < gh" by auto
  let ?st = "scanStep G sens pixelGap gw gh (y, x) st"
  from scanStep_invariant [OF Cons.prems(1) x y, of G sens pixelGap]
  have inv: "scanInvariant gw gh ?st" and here: "fst ?st ! y ! x"
    and mono: "\<forall>cx < gw. \<forall>cy < gh. fst st ! cy ! cx \<longrightarrow> fst ?st ! cy ! cx"
    by simp_all
  from Cons.prems(2) have "set ps \<subseteq> {0..<gh} \<times> {0..<gw}" by simp
  from Cons.IH [OF inv this]
  have ih: "scanInvariant gw gh (fold (scanStep G sens pixelGap gw gh) ps ?st)"
    "\<forall>q \<in> set ps. fst (fold (scanStep G sens pixelGap gw gh) ps ?st) ! fst q ! snd q"
    "\<forall>cx < gw. \<forall>cy < gh. fst ?st ! cy ! cx \<longrightarrow>
        fst (fold (scanStep G sens pixelGap gw gh) ps ?st) ! cy ! cx"
    by simp_all
  from ih(3) here x y have "fst (fold (scanStep G sens pixelGap gw gh) ps ?st) ! y ! x"
    by simp
  with ih mono show ?case
    by (simp add: p)
qed

lemma blobScan_invariant:
  "scanInvariant gw gh (blobScan G sens pixelGap gw gh)
   \<and> (\<forall>cx < gw. \<forall>cy < gh. fst (blobScan G sens pixelGap gw gh) ! cy ! cx)"
proof -
  have sub: "set (List.product [0..<gh] [0..<gw]) \<subseteq> {0..<gh} \<times> {0..<gw}"
    by auto
  from scan_fold [OF scanInvariant_init sub, of G sens pixelGap]
  have inv: "scanInvariant gw gh (blobScan G sens pixelGap gw gh)"
    and all: "\<forall>p \<in> set (List.product [0..<gh] [0..<gw]).
                fst (blobScan G sens pixelGap gw gh) ! fst p ! snd p"
    by (simp_all add: blobScan_def)
  have "fst (blobScan G sens pixelGap gw gh) ! cy ! cx" if "cx < gw" "cy < gh" for cx cy
  proof -
    from that have "(cy, cx) \<in> set (List.product [0..<gh] [0..<gw])" by simp
    with all show ?thesis by fastforce
  qed
  with inv show ?thesis by simp
qed

lemma insideGrid_cells:
  "insideGrid gw gh b \<Longrightarrow> cellsOf b \<subseteq> {0..<gw} \<times> {0..<gh}"
  by (auto simp: insideGrid_def cellsOf_def square_def)

lemma anchors_tile:
  "disjointBlobs (anchorBlobs G sens pixelGap gw gh)
   \<and> (\<forall>b \<in> set (anchorBlobs G sens pixelGap gw gh). insideGrid gw gh b)
   \<and> \<Union> (cellsOf ` set (anchorBlobs G sens pixelGap gw gh)) = {0..<gw} \<times> {0..<gh}"
proof -
  let ?st = "blobScan G sens pixelGap gw gh"
  from blobScan_invariant [of gw gh G sens pixelGap]
  have inv: "scanInvariant gw gh ?st" and all: "\<And>cx cy. cx < gw \<Longrightarrow> cy < gh \<Longrightarrow> fst ?st ! cy ! cx"
    by blast+
  from inv have iff: "\<And>cx cy. cx < gw \<Longrightarrow> cy < gh \<Longrightarrow>
        fst ?st ! cy ! cx = (\<exists>g \<in> set (snd ?st). (cx, cy) \<in> cellsOf (fst g))"
    and ins: "\<forall>g \<in> set (snd ?st). insideGrid gw gh (fst g)"
    and dis: "disjointBlobs (map fst (snd ?st))"
    unfolding scanInvariant_def by blast+
  have vis: "\<exists>g \<in> set (snd ?st). (cx, cy) \<in> cellsOf (fst g)" if "cx < gw" "cy < gh" for cx cy
    using all [OF that] iff [OF that] by simp
  have "\<Union> (cellsOf ` set (anchorBlobs G sens pixelGap gw gh)) = {0..<gw} \<times> {0..<gh}"
  proof
    show "\<Union> (cellsOf ` set (anchorBlobs G sens pixelGap gw gh)) \<subseteq> {0..<gw} \<times> {0..<gh}"
      using ins insideGrid_cells by (fastforce simp: anchorBlobs_def)
    show "{0..<gw} \<times> {0..<gh} \<subseteq> \<Union> (cellsOf ` set (anchorBlobs G sens pixelGap gw gh))"
    proof
      fix c assume c: "c \<in> {0..<gw} \<times> {0..<gh}"
      obtain cx cy where [simp]: "c = (cx, cy)" by (cases c)
      from c vis [of cx cy] show "c \<in> \<Union> (cellsOf ` set (anchorBlobs G sens pixelGap gw gh))"
        by (auto simp: anchorBlobs_def)
    qed
  qed
  with ins dis show ?thesis by (simp add: anchorBlobs_def)
qed

lemma fillers_in_parent:
  assumes "g \<in> set (snd (blobScan G sens pixelGap gw gh))" and "f \<in> set (snd g)"
  shows "1 \<le> blob_size f \<and> cellsOf f \<subseteq> cellsOf (fst g) \<and> insideGrid gw gh (fst g)
         \<and> insideGrid gw gh f"
proof -
  from blobScan_invariant [of gw gh G sens pixelGap] assms
  have f: "1 \<le> blob_size f" "cellsOf f \<subseteq> cellsOf (fst g)" and g: "insideGrid gw gh (fst g)"
    by (auto simp: scanInvariant_def)
  have "(blob_x f, blob_y f) \<in> cellsOf f"
    and "(blob_x f + blob_size f - 1, blob_y f + blob_size f - 1) \<in> cellsOf f"
    using f(1) by (auto simp: cellsOf_def in_square)
  with f(2) have "(blob_x f, blob_y f) \<in> cellsOf (fst g)"
    and "(blob_x f + blob_size f - 1, blob_y f + blob_size f - 1) \<in> cellsOf (fst g)"
    by blast+
  with g f(1) have "insideGrid gw gh f"
    by (auto simp: insideGrid_def cellsOf_def in_square)
  with f g show ?thesis by simp
qed

lemma finite_cellsOf [simp]: "finite (cellsOf b)"
  by (simp add: cellsOf_def square_def)

lemma card_cellsOf [simp]: "card (cellsOf b) = blob_size b * blob_size b"
  by (simp add: cellsOf_def square_def)

lemma card_disjointBlobs:
  "disjointBlobs bs \<Longrightarrow> card (\<Union> (cellsOf ` set bs)) = sumSquares bs"
proof (induction bs)
  case Nil
  then show ?case by (simp add: sumSquares_def)
next
  case (Cons b bs)
  then have "cellsOf b \<inter> \<Union> (cellsOf ` set bs) = {}" by auto
  then have "card (cellsOf b \<union> \<Union> (cellsOf ` set bs))
             = card (cellsOf b) + card (\<Union> (cellsOf ` set bs))"
    by (intro card_Un_disjoint) auto
  with Cons show ?case by (simp add: sumSquares_def)
qed

lemma sumSquares_anchors: "sumSquares (anchorBlobs G sens pixelGap gw gh) = gw * gh"
proof -
  from anchors_tile [of G sens pixelGap gw gh]
  have "card (\<Union> (cellsOf ` set (anchorBlobs G sens pixelGap gw gh))) = card ({0..<gw} \<times> {0..<gh})"
    and "disjointBlobs (anchorBlobs G sens pixelGap gw gh)"
    by simp_all
  then show ?thesis by (simp add: card_disjointBlobs)
qed

lemma sumSquares_blobs_groups:
  "sumSquares (concat (map (\<lambda>g. fst g # snd g) gs))
     = sumSquares (map fst gs) + sumSquares (concat (map snd gs))"
  by (induction gs) (simp_all add: sumSquares_def)

lemma sumSquares_blobs:
  "sumSquares (blobs G sens pixelGap gw gh)
     = gw * gh + sumSquares (fillerBlobs G sens pixelGap gw gh)"
  using sumSquares_anchors [of G sens pixelGap gw gh]
  by (simp add: blobs_def fillerBlobs_def anchorBlobs_def sumSquares_blobs_groups)

section \<open>Blob detection: the corner fillers tile the corners\<close>

lemma fold_marks_all:
  assumes "I st"
    and "\<And>p s. p \<in> set ps \<Longrightarrow> I s \<Longrightarrow> I (f p s) \<and> M (f p s) p \<and> (\<forall>q. M s q \<longrightarrow> M (f p s) q)"
  shows "I (fold f ps st) \<and> (\<forall>p \<in> set ps. M (fold f ps st) p)
         \<and> (\<forall>q. M st q \<longrightarrow> M (fold f ps st) q)"
  using assms
proof (induction ps arbitrary: st)
  case Nil
  then show ?case by simp
next
  case (Cons p ps)
  have step: "I (f p st) \<and> M (f p st) p \<and> (\<forall>q. M st q \<longrightarrow> M (f p st) q)"
    using Cons.prems by simp
  have i: "I (f p st)" using step by simp
  have r: "\<And>p' s. p' \<in> set ps \<Longrightarrow> I s \<Longrightarrow>
             I (f p' s) \<and> M (f p' s) p' \<and> (\<forall>q. M s q \<longrightarrow> M (f p' s) q)"
    using Cons.prems(2) by simp
  from Cons.IH [OF i r] step show ?case by simp
qed

lemma disjointBlobs_append:
  "disjointBlobs (as @ bs) =
     (disjointBlobs as \<and> disjointBlobs bs \<and> (\<forall>a \<in> set as. \<forall>b \<in> set bs. cellsOf a \<inter> cellsOf b = {}))"
  by (induction as) auto

lemma fillInvariant_init: "fillInvariant x y sz pixelGap (localVisited_init sz pixelGap, [])"
  by (simp add: fillInvariant_def wellFormed_def localVisited_init_def)

lemma fillStep_invariant:
  assumes inv: "fillInvariant x y sz pixelGap st" and lx: "lx < sz" and ly: "ly < sz"
  shows "fillInvariant x y sz pixelGap (fillStep x y sz (ly, lx) st)
         \<and> fst (fillStep x y sz (ly, lx) st) ! ly ! lx
         \<and> (\<forall>cx < sz. \<forall>cy < sz. fst st ! cy ! cx \<longrightarrow> fst (fillStep x y sz (ly, lx) st) ! cy ! cx)"
proof (cases st)
  case (Pair lv fs)
  show ?thesis
  proof (cases "lv ! ly ! lx")
    case True
    with inv Pair show ?thesis by (simp add: fillStep_def)
  next
    case False
    define sub where "sub = growSquare (\<lambda>cx cy. lv ! cy ! cx) lx ly sz sz 1"
    define f where "f = \<lparr>blob_x = x + lx, blob_y = y + ly, blob_size = sub\<rparr>"
    have step: "fillStep x y sz (ly, lx) st = (markVisited lv lx ly sub, fs @ [f])"
      using False by (simp only: fillStep_def Pair prod.case Let_def sub_def f_def if_False)
    have cf: "cellsOf f = square (x + lx) (y + ly) sub"
      by (simp add: cellsOf_def f_def)
    have sub1: "1 \<le> sub"
      unfolding sub_def by (rule growSquare_ge)
    have within: "lx + sub \<le> sz \<and> ly + sub \<le> sz"
      unfolding sub_def using lx ly by (intro growSquare_within) simp_all
    have one: "\<forall>c \<in> square lx ly 1. \<not> (\<lambda>cx cy. lv ! cy ! cx) (fst c) (snd c)"
      using False by (auto simp: square_def)
    have free: "\<forall>c \<in> square lx ly sub. \<not> lv ! snd c ! fst c"
      using growSquare_free [OF _ one, of "\<lambda>cx cy. lv ! cy ! cx" sz sz] by (simp add: sub_def)
    from inv Pair have wf: "wellFormed sz sz lv"
      and vis: "\<And>cx cy. cx < sz \<Longrightarrow> cy < sz \<Longrightarrow>
                  lv ! cy ! cx = (circleMeetsCell sz pixelGap cx cy
                                  \<or> (\<exists>g \<in> set fs. (x + cx, y + cy) \<in> cellsOf g))"
      and old: "\<forall>g \<in> set fs. 1 \<le> blob_size g \<and> cellsOf g \<subseteq> square x y sz
                  \<and> (\<forall>c \<in> cellsOf g. \<not> circleMeetsCell sz pixelGap (fst c - x) (snd c - y))"
      and dis: "disjointBlobs fs"
      by (simp_all add: fillInvariant_def)
    have local: "cx - x < sz \<and> cy - y < sz \<and> x + (cx - x) = cx \<and> y + (cy - y) = cy
                 \<and> (cx - x, cy - y) \<in> square lx ly sub"
      if "(cx, cy) \<in> cellsOf f" for cx cy
      using that within by (auto simp: cf in_square)
    have wf': "wellFormed sz sz (markVisited lv lx ly sub)"
      using wf by (rule wellFormed_markVisited)
    have vis': "markVisited lv lx ly sub ! cy ! cx
                  = (circleMeetsCell sz pixelGap cx cy
                     \<or> (\<exists>g \<in> set (fs @ [f]). (x + cx, y + cy) \<in> cellsOf g))"
      if "cx < sz" "cy < sz" for cx cy
      using that vis [OF that] by (auto simp: markVisited_nth [OF wf] cf in_square)
    have inside: "cellsOf f \<subseteq> square x y sz"
      unfolding cf using within by (intro square_subset) simp_all
    have unmet: "\<forall>c \<in> cellsOf f. \<not> circleMeetsCell sz pixelGap (fst c - x) (snd c - y)"
    proof
      fix c assume c: "c \<in> cellsOf f"
      obtain cx cy where [simp]: "c = (cx, cy)" by (cases c)
      from local [of cx cy] c have l: "cx - x < sz" "cy - y < sz"
        "(cx - x, cy - y) \<in> square lx ly sub"
        by simp_all
      from free l(3) have "\<not> lv ! (cy - y) ! (cx - x)" by auto
      with vis [OF l(1,2)] show "\<not> circleMeetsCell sz pixelGap (fst c - x) (snd c - y)"
        by simp
    qed
    have disf: "\<forall>g \<in> set fs. cellsOf g \<inter> cellsOf f = {}"
    proof (intro ballI)
      fix g assume g: "g \<in> set fs"
      show "cellsOf g \<inter> cellsOf f = {}"
      proof (rule ccontr)
        assume "cellsOf g \<inter> cellsOf f \<noteq> {}"
        then obtain cx cy where in_g: "(cx, cy) \<in> cellsOf g" and in_f: "(cx, cy) \<in> cellsOf f"
          by auto
        from local [OF in_f] have l: "cx - x < sz" "cy - y < sz"
          "x + (cx - x) = cx" "y + (cy - y) = cy" "(cx - x, cy - y) \<in> square lx ly sub"
          by simp_all
        from in_g g l(3,4) have "\<exists>h \<in> set fs. (x + (cx - x), y + (cy - y)) \<in> cellsOf h"
          by auto
        with vis [OF l(1,2)] have "lv ! (cy - y) ! (cx - x)" by simp
        with free l(5) show False by auto
      qed
    qed
    have inv': "fillInvariant x y sz pixelGap (markVisited lv lx ly sub, fs @ [f])"
      unfolding fillInvariant_def
      using wf' vis' old sub1 inside unmet dis disf
      by (simp add: disjointBlobs_snoc f_def [symmetric]) (simp add: f_def)
    have here: "markVisited lv lx ly sub ! ly ! lx"
      using sub1 lx ly by (simp add: markVisited_nth [OF wf] in_square)
    have mono: "\<forall>cx < sz. \<forall>cy < sz. lv ! cy ! cx \<longrightarrow> markVisited lv lx ly sub ! cy ! cx"
      by (simp add: markVisited_nth [OF wf])
    from inv' here mono show ?thesis
      unfolding step using Pair by simp
  qed
qed

lemma cornerFillers_invariant:
  "fillInvariant x y sz pixelGap
     (fold (fillStep x y sz) (List.product [0..<sz] [0..<sz]) (localVisited_init sz pixelGap, []))
   \<and> (\<forall>lx < sz. \<forall>ly < sz.
         fst (fold (fillStep x y sz) (List.product [0..<sz] [0..<sz])
                (localVisited_init sz pixelGap, [])) ! ly ! lx)"
proof -
  let ?M = "\<lambda>(s :: bool list list \<times> blob list) (p :: nat \<times> nat).
              fst p < sz \<and> snd p < sz \<and> fst s ! fst p ! snd p"
  let ?end = "fold (fillStep x y sz) (List.product [0..<sz] [0..<sz])
                (localVisited_init sz pixelGap, [])"
  have "fillInvariant x y sz pixelGap ?end
        \<and> (\<forall>p \<in> set (List.product [0..<sz] [0..<sz]). ?M ?end p)
        \<and> (\<forall>q. ?M (localVisited_init sz pixelGap, []) q \<longrightarrow> ?M ?end q)"
  proof (rule fold_marks_all [where I = "fillInvariant x y sz pixelGap" and M = ?M])
    show "fillInvariant x y sz pixelGap (localVisited_init sz pixelGap, [])"
      by (rule fillInvariant_init)
  next
    fix p and s :: "bool list list \<times> blob list"
    assume p: "p \<in> set (List.product [0..<sz] [0..<sz])" and s: "fillInvariant x y sz pixelGap s"
    obtain ly lx where pq: "p = (ly, lx)" by (cases p)
    from p have l: "lx < sz" "ly < sz" unfolding pq by simp_all
    from fillStep_invariant [OF s l] l
    show "fillInvariant x y sz pixelGap (fillStep x y sz p s) \<and> ?M (fillStep x y sz p s) p
          \<and> (\<forall>q. ?M s q \<longrightarrow> ?M (fillStep x y sz p s) q)"
      unfolding pq by simp
  qed
  then have inv: "fillInvariant x y sz pixelGap ?end"
    and all: "\<forall>p \<in> set (List.product [0..<sz] [0..<sz]). ?M ?end p"
    by blast+
  have "fst ?end ! ly ! lx" if "lx < sz" "ly < sz" for lx ly
  proof -
    from that have "(ly, lx) \<in> set (List.product [0..<sz] [0..<sz])" by simp
    with all have "?M ?end (ly, lx)" by blast
    then show ?thesis by simp
  qed
  with inv show ?thesis by blast
qed

lemma cornerFillers_tile:
  "disjointBlobs (cornerFillers x y sz pixelGap)
   \<and> \<Union> (cellsOf ` set (cornerFillers x y sz pixelGap))
       = {c \<in> square x y sz. \<not> circleMeetsCell sz pixelGap (fst c - x) (snd c - y)}"
proof -
  let ?end = "fold (fillStep x y sz) (List.product [0..<sz] [0..<sz])
                (localVisited_init sz pixelGap, [])"
  have fs: "cornerFillers x y sz pixelGap = snd ?end"
    by (simp add: cornerFillers_def)
  from cornerFillers_invariant [of x y sz pixelGap]
  have inv: "fillInvariant x y sz pixelGap ?end"
    and all: "\<And>lx ly. lx < sz \<Longrightarrow> ly < sz \<Longrightarrow> fst ?end ! ly ! lx"
    by blast+
  from inv have vis: "\<And>lx ly. lx < sz \<Longrightarrow> ly < sz \<Longrightarrow>
        fst ?end ! ly ! lx = (circleMeetsCell sz pixelGap lx ly
                              \<or> (\<exists>f \<in> set (snd ?end). (x + lx, y + ly) \<in> cellsOf f))"
    and old: "\<forall>f \<in> set (snd ?end). 1 \<le> blob_size f \<and> cellsOf f \<subseteq> square x y sz
                \<and> (\<forall>c \<in> cellsOf f. \<not> circleMeetsCell sz pixelGap (fst c - x) (snd c - y))"
    and dis: "disjointBlobs (snd ?end)"
    unfolding fillInvariant_def by blast+
  have "\<Union> (cellsOf ` set (snd ?end))
          = {c \<in> square x y sz. \<not> circleMeetsCell sz pixelGap (fst c - x) (snd c - y)}"
  proof (intro equalityI subsetI)
    fix c assume "c \<in> \<Union> (cellsOf ` set (snd ?end))"
    then obtain f where "f \<in> set (snd ?end)" "c \<in> cellsOf f" by blast
    with old show "c \<in> {c \<in> square x y sz. \<not> circleMeetsCell sz pixelGap (fst c - x) (snd c - y)}"
      by blast
  next
    fix c assume c: "c \<in> {c \<in> square x y sz. \<not> circleMeetsCell sz pixelGap (fst c - x) (snd c - y)}"
    obtain cx cy where cc: "c = (cx, cy)" by (cases c)
    from c have l: "cx - x < sz" "cy - y < sz" "x + (cx - x) = cx" "y + (cy - y) = cy"
      and unmet: "\<not> circleMeetsCell sz pixelGap (cx - x) (cy - y)"
      unfolding cc by (auto simp: in_square)
    from all [OF l(1,2)] vis [OF l(1,2)] unmet
    have "\<exists>f \<in> set (snd ?end). (x + (cx - x), y + (cy - y)) \<in> cellsOf f"
      by simp
    then show "c \<in> \<Union> (cellsOf ` set (snd ?end))"
      unfolding cc l(3,4) by blast
  qed
  with dis show ?thesis unfolding fs by simp
qed

lemma scan_groups_fillers:
  "\<forall>g \<in> set (snd (blobScan G sens pixelGap gw gh)).
     snd g = (if 1 < blob_size (fst g)
              then cornerFillers (blob_x (fst g)) (blob_y (fst g)) (blob_size (fst g)) pixelGap
              else [])"
proof -
  let ?I = "\<lambda>s :: bool list list \<times> (blob \<times> blob list) list.
              \<forall>g \<in> set (snd s).
                snd g = (if 1 < blob_size (fst g)
                         then cornerFillers (blob_x (fst g)) (blob_y (fst g)) (blob_size (fst g)) pixelGap
                         else [])"
  have "?I (fold (scanStep G sens pixelGap gw gh) (List.product [0..<gh] [0..<gw])
              (replicate gh (replicate gw False), []))"
  proof (rule fold_invariant [where I = ?I])
    show "?I (replicate gh (replicate gw False), [])" by simp
  next
    fix p :: "nat \<times> nat" and s :: "bool list list \<times> (blob \<times> blob list) list"
    assume s: "?I s"
    obtain y x where pq: "p = (y, x)" by (cases p)
    obtain v out where st: "s = (v, out)" by (cases s)
    from s show "?I (scanStep G sens pixelGap gw gh p s)"
      unfolding pq st by (simp add: scanStep_def Let_def)
  qed
  then show ?thesis by (simp add: blobScan_def)
qed

lemma disjointBlobs_groups:
  assumes "disjointBlobs (map fst gs)"
    and "\<forall>g \<in> set gs. disjointBlobs (snd g) \<and> (\<forall>f \<in> set (snd g). cellsOf f \<subseteq> cellsOf (fst g))"
  shows "disjointBlobs (concat (map snd gs))"
  using assms
proof (induction gs)
  case Nil
  then show ?case by simp
next
  case (Cons g gs)
  have rest: "disjointBlobs (concat (map snd gs))"
    using Cons by simp
  have cross: "\<forall>a \<in> set (snd g). \<forall>b \<in> set (concat (map snd gs)). cellsOf a \<inter> cellsOf b = {}"
  proof (intro ballI)
    fix a b assume a: "a \<in> set (snd g)" and b: "b \<in> set (concat (map snd gs))"
    from b obtain h where h: "h \<in> set gs" "b \<in> set (snd h)" by auto
    from Cons.prems(1) h(1) have "cellsOf (fst g) \<inter> cellsOf (fst h) = {}" by auto
    moreover from Cons.prems(2) a have "cellsOf a \<subseteq> cellsOf (fst g)" by simp
    moreover from Cons.prems(2) h have "cellsOf b \<subseteq> cellsOf (fst h)" by simp
    ultimately show "cellsOf a \<inter> cellsOf b = {}" by blast
  qed
  from Cons.prems(2) have "disjointBlobs (snd g)" by simp
  with rest cross show ?case by (simp add: disjointBlobs_append)
qed

lemma fillers_tile_corners:
  assumes "g \<in> set (snd (blobScan G sens pixelGap gw gh))"
  shows "disjointBlobs (snd g)
         \<and> \<Union> (cellsOf ` set (snd g)) = (if 1 < blob_size (fst g) then cornerCells pixelGap (fst g) else {})"
proof (cases "1 < blob_size (fst g)")
  case True
  with scan_groups_fillers assms
  have "snd g = cornerFillers (blob_x (fst g)) (blob_y (fst g)) (blob_size (fst g)) pixelGap"
    by auto
  with True cornerFillers_tile [of "blob_x (fst g)" "blob_y (fst g)" "blob_size (fst g)" pixelGap]
  show ?thesis by (simp add: cornerCells_def cellsOf_def)
next
  case False
  with scan_groups_fillers assms have "snd g = []" by auto
  with False show ?thesis by simp
qed

lemma fillers_disjoint: "disjointBlobs (fillerBlobs G sens pixelGap gw gh)"
  unfolding fillerBlobs_def
proof (rule disjointBlobs_groups)
  show "disjointBlobs (map fst (snd (blobScan G sens pixelGap gw gh)))"
    using anchors_tile [of G sens pixelGap gw gh] by (simp add: anchorBlobs_def)
  show "\<forall>g \<in> set (snd (blobScan G sens pixelGap gw gh)).
          disjointBlobs (snd g) \<and> (\<forall>f \<in> set (snd g). cellsOf f \<subseteq> cellsOf (fst g))"
    using fillers_tile_corners [of _ G sens pixelGap gw gh]
      fillers_in_parent [of _ G sens pixelGap gw gh] by blast
qed

section \<open>Transparent cells\<close>

lemma fullMatrix_nth:
  assumes "x < gridWidth" and "y < gridHeight"
  shows "fullMatrix gridWidth gridHeight imageData ! y ! x =
           (if imageData ! ((y * gridWidth + x) * 4 + 3) \<le> 10 then None
            else Some \<lparr>px_r = js_round (max 0 (min 255 (real_of_int (imageData ! ((y * gridWidth + x) * 4))))),
                       px_g = js_round (max 0 (min 255 (real_of_int (imageData ! ((y * gridWidth + x) * 4 + 1))))),
                       px_b = js_round (max 0 (min 255 (real_of_int (imageData ! ((y * gridWidth + x) * 4 + 2))))),
                       px_a = imageData ! ((y * gridWidth + x) * 4 + 3)\<rparr>)"
  using assms by (simp add: fullMatrix_def Let_def)

lemma drawPixel_cell:
  "Dot c fill sh \<in> set (drawPixel circ aa ox oy cw ch pw ph x y p)
     \<Longrightarrow> c = (x, y) \<and> fill = (px_r p, px_g p, px_b p)"
  by (auto simp: drawPixel_def Let_def split: if_splits)

lemma drawCells_cell:
  assumes "Dot (x, y) fill sh \<in> set (drawCells circ aa ox oy cw ch pw ph matrix gw gh)"
  shows "\<exists>p. cellAt matrix y x = Some p \<and> fill = (px_r p, px_g p, px_b p)"
proof -
  from assms obtain y' x' where
    "Dot (x, y) fill sh \<in> set (case cellAt matrix y' x' of None \<Rightarrow> []
        | Some p \<Rightarrow> drawPixel circ aa ox oy cw ch pw ph x' y' p)"
    unfolding drawCells_def by auto
  then obtain p where some: "cellAt matrix y' x' = Some p"
    and dot: "Dot (x, y) fill sh \<in> set (drawPixel circ aa ox oy cw ch pw ph x' y' p)"
    by (cases "cellAt matrix y' x'") simp_all
  from drawPixel_cell [OF dot] some show ?thesis by simp
qed

lemma dots_of_non_null_cells:
  assumes "Dot (x, y) fill sh \<in> set (drawPhotoWidgetMatrix width height mode matrix pixelGap circ aa)"
  shows "\<exists>p. cellAt matrix y x = Some p \<and> fill = (px_r p, px_g p, px_b p)"
proof -
  have bg: "Dot (x, y) fill sh \<noteq> (case mode of
        Transparent \<Rightarrow> ClearRect width height
      | Dark \<Rightarrow> FillBackground ''#1b1b1b'' width height
      | Light \<Rightarrow> FillBackground ''#f1f0f1'' width height)"
    by (cases mode) simp_all
  from assms bg obtain ox oy cw ch pw ph gw gh where
    "Dot (x, y) fill sh \<in> set (drawCells circ aa ox oy cw ch pw ph matrix gw gh)"
    unfolding drawPhotoWidgetMatrix_def Let_def
    by (auto split: if_splits)
  then show ?thesis by (rule drawCells_cell)
qed

text \<open>
  Claim C9, as stated, at a concrete input: the Glass Dots colour grid of a one-cell image
  whose only pixel is fully transparent (alpha 0) holds a colour for that cell, not
  \<open>null\<close>.
\<close>

theorem transparent_cell_counterexample:
  "[0, 0, 0, 0] ! ((0 * 1 + 0) * 4 + 3) \<le> (10::int)
   \<and> colorGrid_GlassDots 1 1 [0, 0, 0, 0] ! 0 ! 0 = Some \<lparr>col_r = 0, col_g = 0, col_b = 0\<rparr>
   \<and> colorGrid_GlassDots 1 1 [0, 0, 0, 0] ! 0 ! 0 \<noteq> None"
  by (simp add: colorGrid_GlassDots_def)

text \<open>
  Claim C9, amended. In the Photo Widget pipeline every cell of the sampled matrix whose
  alpha byte is at most 10 is \<open>null\<close>, and every dot that \<open>drawPhotoWidgetMatrix\<close>
  draws is drawn for a cell that holds a pixel, in that pixel's colour; no dot is drawn
  for a \<open>null\<close> cell. The Glass Dots colour grid holds a colour for every cell.
\<close>

theorem photo_widget_transparent_cells:
  "(x < gridWidth \<and> y < gridHeight \<and> imageData ! ((y * gridWidth + x) * 4 + 3) \<le> 10
      \<longrightarrow> fullMatrix gridWidth gridHeight imageData ! y ! x = None)
   \<and> (cellAt matrix y x = None
      \<longrightarrow> Dot (x, y) fill sh
            \<notin> set (drawPhotoWidgetMatrix width height mode matrix pixelGap isCircular isAntiAliased))
   \<and> (Dot (x, y) fill sh
        \<in> set (drawPhotoWidgetMatrix width height mode matrix pixelGap isCircular isAntiAliased)
      \<longrightarrow> (\<exists>p. cellAt matrix y x = Some p \<and> fill = (px_r p, px_g p, px_b p)))
   \<and> (x < gridWidth \<and> y < gridHeight
      \<longrightarrow> colorGrid_GlassDots gridWidth gridHeight imageData ! y ! x \<noteq> None)"
  using dots_of_non_null_cells [of x y fill sh width height mode matrix pixelGap isCircular isAntiAliased]
  by (auto simp: fullMatrix_nth colorGrid_GlassDots_def Let_def)

theorem photo_widget_transparent_cells_witness:
  "(0::nat) < 2 \<and> (0::nat) < 1 \<and> [7, 7, 7, 10, 200, 100, 50, 255] ! ((0 * 2 + 0) * 4 + 3) \<le> (10::int)
   \<and> fullMatrix 2 1 [7, 7, 7, 10, 200, 100, 50, 255]
       = [[None, Some \<lparr>px_r = 200, px_g = 100, px_b = 50, px_a = 255\<rparr>]]
   \<and> cellAt (fullMatrix 2 1 [7, 7, 7, 10, 200, 100, 50, 255]) 0 0 = None
   \<and> drawPhotoWidgetMatrix 1176 1176 Dark (fullMatrix 2 1 [7, 7, 7, 10, 200, 100, 50, 255]) 0 False False
       = [FillBackground ''#1b1b1b'' 1176 1176, Dot (1, 0) (200, 100, 50) (Rect 588 319 538 538)]
   \<and> Dot (0, 0) (7, 7, 7) (Rect 50 319 538 538)
       \<notin> set (drawPhotoWidgetMatrix 1176 1176 Dark (fullMatrix 2 1 [7, 7, 7, 10, 200, 100, 50, 255]) 0 False False)"
proof -
  have u: "[0..<2] = [0, 1]" by (simp add: upt_rec)
  have m: "fullMatrix 2 1 [7, 7, 7, 10, 200, 100, 50, 255]
             = [[None, Some \<lparr>px_r = 200, px_g = 100, px_b = 50, px_a = 255\<rparr>]]"
    by (simp add: fullMatrix_def u js_round_def)
  have d: "drawPhotoWidgetMatrix 1176 1176 Dark [[None, Some \<lparr>px_r = 200, px_g = 100, px_b = 50, px_a = 255\<rparr>]] 0 False False
             = [FillBackground ''#1b1b1b'' 1176 1176, Dot (1, 0) (200, 100, 50) (Rect 588 319 538 538)]"
    by (simp add: drawPhotoWidgetMatrix_def drawCells_def Let_def u cellAt_def drawPixel_def)
  show ?thesis
    using photo_widget_transparent_cells [of 0 2 0 1 "[7, 7, 7, 10, 200, 100, 50, 255]"
        "fullMatrix 2 1 [7, 7, 7, 10, 200, 100, 50, 255]" "(7, 7, 7)" "Rect 50 319 538 538"
        1176 1176 Dark 0 False False]
    unfolding m d by (simp add: cellAt_def)
qed

section \<open>Blob detection: results\<close>

lemma disjointBlobs_nth:
  "disjointBlobs bs \<Longrightarrow> i < j \<Longrightarrow> j < length bs \<Longrightarrow> cellsOf (bs ! i) \<inter> cellsOf (bs ! j) = {}"
proof (induction bs arbitrary: i j)
  case Nil
  then show ?case by simp
next
  case (Cons b bs)
  show ?case
  proof (cases i)
    case 0
    with Cons.prems obtain j' where j: "j = Suc j'" "j' < length bs"
      by (cases j) simp_all
    with Cons.prems(1) 0 show ?thesis by simp
  next
    case (Suc i')
    with Cons.prems obtain j' where j: "j = Suc j'" "j' < length bs" "i' < j'"
      by (cases j) simp_all
    with Cons.IH [of i' j'] Cons.prems(1) Suc show ?thesis by simp
  qed
qed

lemma blobs_set:
  "set (blobs G sens pixelGap gw gh)
     = set (anchorBlobs G sens pixelGap gw gh) \<union> set (fillerBlobs G sens pixelGap gw gh)"
  by (auto simp: blobs_def anchorBlobs_def fillerBlobs_def)

lemma blobs_insideGrid:
  assumes "b \<in> set (blobs G sens pixelGap gw gh)"
  shows "insideGrid gw gh b"
proof -
  from assms consider "b \<in> set (anchorBlobs G sens pixelGap gw gh)"
    | "b \<in> set (fillerBlobs G sens pixelGap gw gh)"
    by (auto simp: blobs_set)
  then show ?thesis
  proof cases
    case 1
    with anchors_tile [of G sens pixelGap gw gh] show ?thesis by blast
  next
    case 2
    then obtain g where "g \<in> set (snd (blobScan G sens pixelGap gw gh))" "b \<in> set (snd g)"
      by (auto simp: fillerBlobs_def)
    then show ?thesis using fillers_in_parent by blast
  qed
qed

lemma sumSquares_zero:
  "(\<forall>b \<in> set bs. 1 \<le> blob_size b) \<Longrightarrow> (sumSquares bs = 0) = (bs = [])"
  by (cases bs) (auto simp: sumSquares_def)

lemma fillers_positive:
  "\<forall>f \<in> set (fillerBlobs G sens pixelGap gw gh). 1 \<le> blob_size f"
  using fillers_in_parent by (fastforce simp: fillerBlobs_def)

lemma upt_7: "[0..<7] = [0, 1, 2, 3, 4, 5, 6]"
  by (simp add: upt_rec)

lemma blobScan_grid7:
  "snd (blobScan grid7 100 0 7 7) =
     [(\<lparr>blob_x = 0, blob_y = 0, blob_size = 7\<rparr>,
       [\<lparr>blob_x = 0, blob_y = 0, blob_size = 1\<rparr>, \<lparr>blob_x = 6, blob_y = 0, blob_size = 1\<rparr>,
        \<lparr>blob_x = 0, blob_y = 6, blob_size = 1\<rparr>, \<lparr>blob_x = 6, blob_y = 6, blob_size = 1\<rparr>])]"
  by code_simp

lemma blobs_grid3x4_low:
  "blobs grid3x4 5 50 3 4 =
     [\<lparr>blob_x = 0, blob_y = 0, blob_size = 1\<rparr>, \<lparr>blob_x = 1, blob_y = 0, blob_size = 1\<rparr>,
      \<lparr>blob_x = 2, blob_y = 0, blob_size = 1\<rparr>, \<lparr>blob_x = 0, blob_y = 1, blob_size = 3\<rparr>]"
  by code_simp

lemma blobs_grid3x4_high:
  "blobs grid3x4 10 50 3 4 =
     [\<lparr>blob_x = 0, blob_y = 0, blob_size = 2\<rparr>, \<lparr>blob_x = 2, blob_y = 0, blob_size = 1\<rparr>,
      \<lparr>blob_x = 2, blob_y = 1, blob_size = 1\<rparr>, \<lparr>blob_x = 0, blob_y = 2, blob_size = 2\<rparr>,
      \<lparr>blob_x = 2, blob_y = 2, blob_size = 1\<rparr>, \<lparr>blob_x = 2, blob_y = 3, blob_size = 1\<rparr>]"
  by code_simp

text \<open>
  Claim C10. Every blob of a pass lies inside the grid with a size of at least 1; every
  corner filler lies inside the square of the blob it was pushed after; and the blobs of
  the anchor scan alone are pairwise disjoint and their union is the whole grid.
\<close>

theorem blobs_inside_grid_anchors_tile:
  "(\<forall>b \<in> set (blobs G sens pixelGap gw gh).
       1 \<le> blob_size b \<and> blob_x b + blob_size b \<le> gw \<and> blob_y b + blob_size b \<le> gh)
   \<and> (\<forall>g \<in> set (snd (blobScan G sens pixelGap gw gh)). \<forall>f \<in> set (snd g).
         cellsOf f \<subseteq> cellsOf (fst g))
   \<and> (\<forall>i j. i < j \<and> j < length (anchorBlobs G sens pixelGap gw gh) \<longrightarrow>
         cellsOf (anchorBlobs G sens pixelGap gw gh ! i)
           \<inter> cellsOf (anchorBlobs G sens pixelGap gw gh ! j) = {})
   \<and> \<Union> (cellsOf ` set (anchorBlobs G sens pixelGap gw gh)) = {0..<gw} \<times> {0..<gh}"
proof -
  have "\<forall>b \<in> set (blobs G sens pixelGap gw gh).
          1 \<le> blob_size b \<and> blob_x b + blob_size b \<le> gw \<and> blob_y b + blob_size b \<le> gh"
    using blobs_insideGrid [of _ G sens pixelGap gw gh] by (simp add: insideGrid_def)
  moreover have "\<forall>g \<in> set (snd (blobScan G sens pixelGap gw gh)). \<forall>f \<in> set (snd g).
                   cellsOf f \<subseteq> cellsOf (fst g)"
    using fillers_in_parent [of _ G sens pixelGap gw gh] by blast
  moreover have "\<forall>i j. i < j \<and> j < length (anchorBlobs G sens pixelGap gw gh) \<longrightarrow>
         cellsOf (anchorBlobs G sens pixelGap gw gh ! i)
           \<inter> cellsOf (anchorBlobs G sens pixelGap gw gh ! j) = {}"
    using anchors_tile [of G sens pixelGap gw gh] disjointBlobs_nth by blast
  moreover have "\<Union> (cellsOf ` set (anchorBlobs G sens pixelGap gw gh)) = {0..<gw} \<times> {0..<gh}"
    using anchors_tile [of G sens pixelGap gw gh] by blast
  ultimately show ?thesis by blast
qed

theorem blobs_inside_grid_anchors_tile_witness:
  "snd (blobScan grid7 100 0 7 7) =
     [(\<lparr>blob_x = 0, blob_y = 0, blob_size = 7\<rparr>,
       [\<lparr>blob_x = 0, blob_y = 0, blob_size = 1\<rparr>, \<lparr>blob_x = 6, blob_y = 0, blob_size = 1\<rparr>,
        \<lparr>blob_x = 0, blob_y = 6, blob_size = 1\<rparr>, \<lparr>blob_x = 6, blob_y = 6, blob_size = 1\<rparr>])]
   \<and> \<lparr>blob_x = 6, blob_y = 6, blob_size = 1\<rparr> \<in> set (blobs grid7 100 0 7 7)
   \<and> 1 \<le> blob_size \<lparr>blob_x = 6, blob_y = 6, blob_size = 1\<rparr>
   \<and> blob_x \<lparr>blob_x = 6, blob_y = 6, blob_size = 1\<rparr>
        + blob_size \<lparr>blob_x = 6, blob_y = 6, blob_size = 1\<rparr> \<le> 7
   \<and> blob_y \<lparr>blob_x = 6, blob_y = 6, blob_size = 1\<rparr>
        + blob_size \<lparr>blob_x = 6, blob_y = 6, blob_size = 1\<rparr> \<le> 7
   \<and> cellsOf \<lparr>blob_x = 6, blob_y = 6, blob_size = 1\<rparr>
        \<subseteq> cellsOf \<lparr>blob_x = 0, blob_y = 0, blob_size = 7\<rparr>
   \<and> \<Union> (cellsOf ` set (anchorBlobs grid7 100 0 7 7)) = {0..<7} \<times> {0..<7}
   \<and> anchorBlobs grid3x4 10 50 3 4 ! 0 = \<lparr>blob_x = 0, blob_y = 0, blob_size = 2\<rparr>
   \<and> anchorBlobs grid3x4 10 50 3 4 ! 3 = \<lparr>blob_x = 0, blob_y = 2, blob_size = 2\<rparr>
   \<and> cellsOf (anchorBlobs grid3x4 10 50 3 4 ! 0) \<inter> cellsOf (anchorBlobs grid3x4 10 50 3 4 ! 3) = {}"
proof -
  have a: "length (anchorBlobs grid3x4 10 50 3 4) = 6"
    "anchorBlobs grid3x4 10 50 3 4 ! 0 = \<lparr>blob_x = 0, blob_y = 0, blob_size = 2\<rparr>"
    "anchorBlobs grid3x4 10 50 3 4 ! 3 = \<lparr>blob_x = 0, blob_y = 2, blob_size = 2\<rparr>"
    by code_simp+
  have m: "\<lparr>blob_x = 6, blob_y = 6, blob_size = 1\<rparr> \<in> set (blobs grid7 100 0 7 7)"
    by (simp add: blobs_def blobScan_grid7)
  have "(0::nat) < 3 \<and> 3 < length (anchorBlobs grid3x4 10 50 3 4)"
    by (simp add: a)
  with blobs_inside_grid_anchors_tile [of grid3x4 10 50 3 4]
  have d: "cellsOf (anchorBlobs grid3x4 10 50 3 4 ! 0) \<inter> cellsOf (anchorBlobs grid3x4 10 50 3 4 ! 3) = {}"
    by blast
  from blobs_inside_grid_anchors_tile [of grid7 100 0 7 7]
  have "\<forall>g \<in> set (snd (blobScan grid7 100 0 7 7)). \<forall>f \<in> set (snd g). cellsOf f \<subseteq> cellsOf (fst g)"
    by blast
  then have s: "cellsOf \<lparr>blob_x = 6, blob_y = 6, blob_size = 1\<rparr>
        \<subseteq> cellsOf \<lparr>blob_x = 0, blob_y = 0, blob_size = 7\<rparr>"
    unfolding blobScan_grid7 by simp
  from blobs_inside_grid_anchors_tile [of grid7 100 0 7 7] a m d s blobScan_grid7
  show ?thesis by blast
qed

text \<open>
  Claim C1, as stated, at a concrete input: on the 7 x 7 solid grid with sensitivity 100
  and pixel gap 0 the pass emits the 7 x 7 blob and a filler of size 1 in each corner.
  The first two blobs both contain the cell (0, 0), and the sum of the squared sizes is
  53, not 49.
\<close>

theorem blob_tiling_counterexample:
  "blobs grid7 100 0 7 7 ! 0 = \<lparr>blob_x = 0, blob_y = 0, blob_size = 7\<rparr>
   \<and> blobs grid7 100 0 7 7 ! 1 = \<lparr>blob_x = 0, blob_y = 0, blob_size = 1\<rparr>
   \<and> (0, 0) \<in> cellsOf (blobs grid7 100 0 7 7 ! 0) \<inter> cellsOf (blobs grid7 100 0 7 7 ! 1)
   \<and> \<not> disjointBlobs (blobs grid7 100 0 7 7)
   \<and> sumSquares (blobs grid7 100 0 7 7) = 53
   \<and> sumSquares (blobs grid7 100 0 7 7) \<noteq> 7 * 7"
proof -
  have b: "blobs grid7 100 0 7 7 =
     [\<lparr>blob_x = 0, blob_y = 0, blob_size = 7\<rparr>,
      \<lparr>blob_x = 0, blob_y = 0, blob_size = 1\<rparr>, \<lparr>blob_x = 6, blob_y = 0, blob_size = 1\<rparr>,
      \<lparr>blob_x = 0, blob_y = 6, blob_size = 1\<rparr>, \<lparr>blob_x = 6, blob_y = 6, blob_size = 1\<rparr>]"
    by (simp add: blobs_def blobScan_grid7)
  have c: "(0, 0) \<in> cellsOf \<lparr>blob_x = 0, blob_y = 0, blob_size = 7\<rparr>
                  \<inter> cellsOf \<lparr>blob_x = 0, blob_y = 0, blob_size = 1\<rparr>"
    by (simp add: cellsOf_def in_square)
  then have "\<not> disjointBlobs (blobs grid7 100 0 7 7)"
    unfolding b by auto
  with c show ?thesis
    unfolding b by (simp add: sumSquares_def)
qed

text \<open>
  Claim C1, amended. The blobs of the anchor scan are pairwise non-overlapping and cover
  every grid cell exactly once, so the sum of their squared sizes is
  \<open>gridWidth * gridHeight\<close>. The corner fillers are pairwise non-overlapping as well;
  those of a blob have a size of at least 1, lie inside its square, overlap no other
  anchor blob, and cover exactly the cells of its square that its circle does not meet
  (a blob of size 1 has none). So two blobs of a pass overlap only as a filler and its own
  parent; the sum of the squared sizes of all blobs is \<open>gridWidth * gridHeight\<close> plus
  that of the fillers, and equals \<open>gridWidth * gridHeight\<close> exactly when the pass emitted
  no filler.
\<close>

theorem anchor_blobs_tile_grid:
  "disjointBlobs (anchorBlobs G sens pixelGap gw gh)
   \<and> \<Union> (cellsOf ` set (anchorBlobs G sens pixelGap gw gh)) = {0..<gw} \<times> {0..<gh}
   \<and> sumSquares (anchorBlobs G sens pixelGap gw gh) = gw * gh
   \<and> sumSquares (blobs G sens pixelGap gw gh)
       = gw * gh + sumSquares (fillerBlobs G sens pixelGap gw gh)
   \<and> ((sumSquares (blobs G sens pixelGap gw gh) = gw * gh)
        = (fillerBlobs G sens pixelGap gw gh = []))
   \<and> (\<forall>g \<in> set (snd (blobScan G sens pixelGap gw gh)). \<forall>f \<in> set (snd g).
         1 \<le> blob_size f \<and> cellsOf f \<subseteq> cellsOf (fst g))
   \<and> disjointBlobs (fillerBlobs G sens pixelGap gw gh)
   \<and> (\<forall>g \<in> set (snd (blobScan G sens pixelGap gw gh)).
         \<Union> (cellsOf ` set (snd g))
           = (if 1 < blob_size (fst g) then cornerCells pixelGap (fst g) else {}))
   \<and> (\<forall>i j. i \<noteq> j \<and> i < length (snd (blobScan G sens pixelGap gw gh))
               \<and> j < length (snd (blobScan G sens pixelGap gw gh)) \<longrightarrow>
         (\<forall>f \<in> set (snd (snd (blobScan G sens pixelGap gw gh) ! i)).
            cellsOf f \<inter> cellsOf (fst (snd (blobScan G sens pixelGap gw gh) ! j)) = {}))"
proof -
  let ?gs = "snd (blobScan G sens pixelGap gw gh)"
  have "(sumSquares (fillerBlobs G sens pixelGap gw gh) = 0)
          = (fillerBlobs G sens pixelGap gw gh = [])"
    using fillers_positive by (rule sumSquares_zero)
  then have s3: "(sumSquares (blobs G sens pixelGap gw gh) = gw * gh)
          = (fillerBlobs G sens pixelGap gw gh = [])"
    by (simp add: sumSquares_blobs)
  have s1: "sumSquares (anchorBlobs G sens pixelGap gw gh) = gw * gh"
    by (rule sumSquares_anchors)
  have s2: "sumSquares (blobs G sens pixelGap gw gh)
          = gw * gh + sumSquares (fillerBlobs G sens pixelGap gw gh)"
    by (rule sumSquares_blobs)
  have inside: "\<forall>g \<in> set ?gs. \<forall>f \<in> set (snd g).
          1 \<le> blob_size f \<and> cellsOf f \<subseteq> cellsOf (fst g)"
    using fillers_in_parent [of _ G sens pixelGap gw gh] by blast
  have corners: "\<forall>g \<in> set ?gs.
         \<Union> (cellsOf ` set (snd g))
           = (if 1 < blob_size (fst g) then cornerCells pixelGap (fst g) else {})"
    using fillers_tile_corners [of _ G sens pixelGap gw gh] by blast
  have dis: "disjointBlobs (map fst ?gs)"
    using anchors_tile [of G sens pixelGap gw gh] by (simp add: anchorBlobs_def)
  have other: "\<forall>f \<in> set (snd (?gs ! i)). cellsOf f \<inter> cellsOf (fst (?gs ! j)) = {}"
    if "i \<noteq> j" "i < length ?gs" "j < length ?gs" for i j
  proof
    fix f assume f: "f \<in> set (snd (?gs ! i))"
    from that(2) have "?gs ! i \<in> set ?gs" by simp
    with inside f have sub: "cellsOf f \<subseteq> cellsOf (fst (?gs ! i))" by blast
    have "cellsOf (fst (?gs ! i)) \<inter> cellsOf (fst (?gs ! j)) = {}"
    proof (cases "i < j")
      case True
      with disjointBlobs_nth [OF dis, of i j] that show ?thesis by simp
    next
      case False
      with that(1) have "j < i" by simp
      with disjointBlobs_nth [OF dis, of j i] that show ?thesis by (simp add: Int_commute)
    qed
    with sub show "cellsOf f \<inter> cellsOf (fst (?gs ! j)) = {}" by blast
  qed
  have o: "\<forall>i j. i \<noteq> j \<and> i < length ?gs \<and> j < length ?gs \<longrightarrow>
         (\<forall>f \<in> set (snd (?gs ! i)). cellsOf f \<inter> cellsOf (fst (?gs ! j)) = {})"
  proof (intro allI impI)
    fix i j assume "i \<noteq> j \<and> i < length ?gs \<and> j < length ?gs"
    then show "\<forall>f \<in> set (snd (?gs ! i)). cellsOf f \<inter> cellsOf (fst (?gs ! j)) = {}"
      using other [of i j] by simp
  qed
  have d1: "disjointBlobs (anchorBlobs G sens pixelGap gw gh)"
    using anchors_tile [of G sens pixelGap gw gh] by simp
  have u2: "\<Union> (cellsOf ` set (anchorBlobs G sens pixelGap gw gh)) = {0..<gw} \<times> {0..<gh}"
    using anchors_tile [of G sens pixelGap gw gh] by simp
  have fd: "disjointBlobs (fillerBlobs G sens pixelGap gw gh)"
    by (rule fillers_disjoint)
  show ?thesis
    by (intro conjI) (rule d1 u2 s1 s2 s3 inside fd corners o)+
qed

theorem anchor_blobs_tile_grid_witness:
  "anchorBlobs grid7 100 0 7 7 = [\<lparr>blob_x = 0, blob_y = 0, blob_size = 7\<rparr>]
   \<and> fillerBlobs grid7 100 0 7 7
       = [\<lparr>blob_x = 0, blob_y = 0, blob_size = 1\<rparr>, \<lparr>blob_x = 6, blob_y = 0, blob_size = 1\<rparr>,
          \<lparr>blob_x = 0, blob_y = 6, blob_size = 1\<rparr>, \<lparr>blob_x = 6, blob_y = 6, blob_size = 1\<rparr>]
   \<and> disjointBlobs (anchorBlobs grid7 100 0 7 7)
   \<and> \<Union> (cellsOf ` set (anchorBlobs grid7 100 0 7 7)) = {0..<7} \<times> {0..<7}
   \<and> sumSquares (anchorBlobs grid7 100 0 7 7) = 7 * 7
   \<and> sumSquares (blobs grid7 100 0 7 7) = 7 * 7 + 4
   \<and> disjointBlobs (fillerBlobs grid7 100 0 7 7)
   \<and> cornerCells 0 \<lparr>blob_x = 0, blob_y = 0, blob_size = 7\<rparr> = {(0, 0), (6, 0), (0, 6), (6, 6)}"
proof -
  have a: "anchorBlobs grid7 100 0 7 7 = [\<lparr>blob_x = 0, blob_y = 0, blob_size = 7\<rparr>]"
    by (simp add: anchorBlobs_def blobScan_grid7)
  have fl: "fillerBlobs grid7 100 0 7 7
       = [\<lparr>blob_x = 0, blob_y = 0, blob_size = 1\<rparr>, \<lparr>blob_x = 6, blob_y = 0, blob_size = 1\<rparr>,
          \<lparr>blob_x = 0, blob_y = 6, blob_size = 1\<rparr>, \<lparr>blob_x = 6, blob_y = 6, blob_size = 1\<rparr>]"
    by (simp add: fillerBlobs_def blobScan_grid7)
  have f: "sumSquares (fillerBlobs grid7 100 0 7 7) = 4"
    by (simp add: fl sumSquares_def)
  have single: "cellsOf \<lparr>blob_x = a, blob_y = b, blob_size = Suc 0\<rparr> = {(a, b)}" for a b
    by (auto simp: cellsOf_def square_def)
  note t = anchor_blobs_tile_grid [of grid7 100 0 7 7]
  have d1: "disjointBlobs (anchorBlobs grid7 100 0 7 7)"
    using t by (elim conjE)
  have u1: "\<Union> (cellsOf ` set (anchorBlobs grid7 100 0 7 7)) = {0..<7} \<times> {0..<7}"
    using t by (elim conjE)
  have s1: "sumSquares (anchorBlobs grid7 100 0 7 7) = 7 * 7"
    using t by (elim conjE)
  have s2: "sumSquares (blobs grid7 100 0 7 7) = 7 * 7 + sumSquares (fillerBlobs grid7 100 0 7 7)"
    using t by (elim conjE)
  have fd: "disjointBlobs (fillerBlobs grid7 100 0 7 7)"
    using t by (elim conjE)
  have "\<forall>g \<in> set (snd (blobScan grid7 100 0 7 7)).
         \<Union> (cellsOf ` set (snd g))
           = (if 1 < blob_size (fst g) then cornerCells 0 (fst g) else {})"
    using t by (elim conjE)
  then have "\<Union> (cellsOf ` set [\<lparr>blob_x = 0, blob_y = 0, blob_size = 1\<rparr>,
        \<lparr>blob_x = 6, blob_y = 0, blob_size = 1\<rparr>, \<lparr>blob_x = 0, blob_y = 6, blob_size = 1\<rparr>,
        \<lparr>blob_x = 6, blob_y = 6, blob_size = 1\<rparr>])
      = cornerCells 0 \<lparr>blob_x = 0, blob_y = 0, blob_size = 7\<rparr>"
    unfolding blobScan_grid7 by simp
  then have "cornerCells 0 \<lparr>blob_x = 0, blob_y = 0, blob_size = 7\<rparr>
      = \<Union> (cellsOf ` set [\<lparr>blob_x = 0, blob_y = 0, blob_size = 1\<rparr>,
        \<lparr>blob_x = 6, blob_y = 0, blob_size = 1\<rparr>, \<lparr>blob_x = 0, blob_y = 6, blob_size = 1\<rparr>,
        \<lparr>blob_x = 6, blob_y = 6, blob_size = 1\<rparr>])"
    by (rule sym)
  also have "\<dots> = {(0, 0), (6, 0), (0, 6), (6, 6)}"
    by (simp add: single insert_commute)
  finally have cc: "cornerCells 0 \<lparr>blob_x = 0, blob_y = 0, blob_size = 7\<rparr>
                      = {(0, 0), (6, 0), (0, 6), (6, 6)}" .
  have s2': "sumSquares (blobs grid7 100 0 7 7) = 7 * 7 + 4"
    using s2 unfolding f .
  show ?thesis
    by (intro conjI) (rule a fl d1 u1 s1 s2' fd cc)+
qed

section \<open>The 2 x 2 scenario\<close>

lemma upt_2: "[0..<2] = [0, 1]"
  by (simp add: upt_rec)

lemma circle_meets_cells_of_size_2:
  assumes "0 \<le> pixelGap" and "pixelGap \<le> 100" and "lx < 2" and "ly < 2"
  shows "circleMeetsCell 2 pixelGap lx ly"
proof -
  have r: "23 / 25 \<le> visualRadius 2 pixelGap"
    using assms(1,2) by (simp add: visualRadius_def effectiveGapPercent_def)
  have "(23 / 25) * (23 / 25) \<le> visualRadius 2 pixelGap * visualRadius 2 pixelGap"
    using r by (intro mult_mono) simp_all
  then have big: "1 / 1000 < visualRadius 2 pixelGap * visualRadius 2 pixelGap"
    by simp
  have "lx = 0 \<or> lx = 1" and "ly = 0 \<or> ly = 1"
    using assms(3,4) by auto
  then show ?thesis
    using big by (auto simp: circleMeetsCell_def Let_def)
qed

text \<open>
  Claim C3. On a 2 x 2 grid of one colour, with a pixel gap within 0..100, sensitivity
  100 yields the single blob at (0, 0) of size 2 and no filler, and sensitivity 0 yields
  the four blobs of size 1 in row-major order.
\<close>

theorem solid_2x2_grid:
  assumes "0 \<le> pixelGap" and "pixelGap \<le> 100"
  shows "blobs [[Some c, Some c], [Some c, Some c]] 100 pixelGap 2 2
           = [\<lparr>blob_x = 0, blob_y = 0, blob_size = 2\<rparr>]
         \<and> fillerBlobs [[Some c, Some c], [Some c, Some c]] 100 pixelGap 2 2 = []
         \<and> blobs [[Some c, Some c], [Some c, Some c]] 0 pixelGap 2 2
           = [\<lparr>blob_x = 0, blob_y = 0, blob_size = 1\<rparr>, \<lparr>blob_x = 1, blob_y = 0, blob_size = 1\<rparr>,
              \<lparr>blob_x = 0, blob_y = 1, blob_size = 1\<rparr>, \<lparr>blob_x = 1, blob_y = 1, blob_size = 1\<rparr>]"
proof -
  let ?G = "[[Some c, Some c], [Some c, Some c]]"
  have v0: "replicate 2 (replicate 2 False) = [[False, False], [False, False]]"
    by (simp add: numeral_2_eq_2)
  have lv: "localVisited_init 2 pixelGap = [[True, True], [True, True]]"
    using assms by (simp add: localVisited_init_def upt_2 circle_meets_cells_of_size_2)
  have cf: "cornerFillers 0 0 2 pixelGap = []"
    by (simp add: cornerFillers_def lv upt_2 fillStep_def)
  have fm: "findMaxBlobSize ?G [[False, False], [False, False]] 100 0 0 2 2 True = 2"
    by (simp add: findMaxBlobSize_def growSquare.simps upt_2 tooDistant_def exceeds_def
        colorDistance_def similarityThreshold_def)
  have mv: "markVisited [[False, False], [False, False]] 0 0 2 = [[True, True], [True, True]]"
    by (simp add: markVisited_def markRow_def upt_2)
  have scan: "snd (blobScan ?G 100 pixelGap 2 2) = [(\<lparr>blob_x = 0, blob_y = 0, blob_size = 2\<rparr>, [])]"
    by (simp add: blobScan_def v0 upt_2 scanStep_def fm mv cf)
  have zero: "blobs ?G 0 pixelGap 2 2
           = [\<lparr>blob_x = 0, blob_y = 0, blob_size = 1\<rparr>, \<lparr>blob_x = 1, blob_y = 0, blob_size = 1\<rparr>,
              \<lparr>blob_x = 0, blob_y = 1, blob_size = 1\<rparr>, \<lparr>blob_x = 1, blob_y = 1, blob_size = 1\<rparr>]"
    by (simp add: blobs_def blobScan_def v0 upt_2 scanStep_def findMaxBlobSize_def
        markVisited_def markRow_def)
  from scan zero show ?thesis
    by (simp add: blobs_def fillerBlobs_def)
qed

theorem solid_2x2_grid_witness:
  "(0::real) \<le> 50 \<and> (50::real) \<le> 100
   \<and> blobs [[Some \<lparr>col_r = 255, col_g = 0, col_b = 0\<rparr>, Some \<lparr>col_r = 255, col_g = 0, col_b = 0\<rparr>],
             [Some \<lparr>col_r = 255, col_g = 0, col_b = 0\<rparr>, Some \<lparr>col_r = 255, col_g = 0, col_b = 0\<rparr>]]
        100 50 2 2
       = [\<lparr>blob_x = 0, blob_y = 0, blob_size = 2\<rparr>]
   \<and> length (blobs [[Some \<lparr>col_r = 255, col_g = 0, col_b = 0\<rparr>, Some \<lparr>col_r = 255, col_g = 0, col_b = 0\<rparr>],
             [Some \<lparr>col_r = 255, col_g = 0, col_b = 0\<rparr>, Some \<lparr>col_r = 255, col_g = 0, col_b = 0\<rparr>]]
        0 50 2 2) = 4"
  using solid_2x2_grid [of 50 "\<lparr>col_r = 255, col_g = 0, col_b = 0\<rparr>"] by simp

section \<open>Similarity sensitivity\<close>

lemma growSquare_mono:
  "(\<And>cx cy. b2 cx cy \<Longrightarrow> b1 cx cy) \<Longrightarrow>
     growSquare b1 sx sy lx ly currentSize \<le> growSquare b2 sx sy lx ly currentSize"
proof (induction b1 sx sy lx ly currentSize rule: growSquare.induct)
  case (1 b1 sx sy lx ly currentSize)
  note imp = "1.prems"
  show ?case
  proof (cases "(sy + (currentSize + 1) > ly \<or> sx + (currentSize + 1) > lx)
      \<or> list_ex (\<lambda>i. b1 (sx + currentSize) (sy + i)) [0..<currentSize + 1]
      \<or> list_ex (\<lambda>i. b1 (sx + i) (sy + currentSize)) [0..<currentSize]")
    case True
    then have "growSquare b1 sx sy lx ly currentSize = currentSize"
      by (subst growSquare.simps) auto
    then show ?thesis by (simp add: growSquare_ge)
  next
    case False
    then have e1: "growSquare b1 sx sy lx ly currentSize = growSquare b1 sx sy lx ly (currentSize + 1)"
      by (subst growSquare.simps) auto
    from False imp have "\<not> ((sy + (currentSize + 1) > ly \<or> sx + (currentSize + 1) > lx)
      \<or> list_ex (\<lambda>i. b2 (sx + currentSize) (sy + i)) [0..<currentSize + 1]
      \<or> list_ex (\<lambda>i. b2 (sx + i) (sy + currentSize)) [0..<currentSize])"
      unfolding list_ex_iff by blast
    then have e2: "growSquare b2 sx sy lx ly currentSize = growSquare b2 sx sy lx ly (currentSize + 1)"
      by (subst growSquare.simps) auto
    from "1.IH" False imp
    have "growSquare b1 sx sy lx ly (currentSize + 1) \<le> growSquare b2 sx sy lx ly (currentSize + 1)"
      by auto
    with e1 e2 show ?thesis by simp
  qed
qed

lemma growSquare_all_blocked:
  assumes "\<And>cx cy. blocked cx cy"
  shows "growSquare blocked sx sy lx ly currentSize = currentSize"
proof -
  have "list_ex (\<lambda>i. blocked (sx + currentSize) (sy + i)) [0..<currentSize + 1]"
    unfolding list_ex_iff using assms by auto
  then show ?thesis
    by (subst growSquare.simps) simp
qed

lemma exceeds_mono: "t1 \<le> t2 \<Longrightarrow> exceeds dv t2 \<Longrightarrow> exceeds dv t1"
  by (cases dv) (auto simp: exceeds_def)

lemma exceeds_negative: "t < 0 \<Longrightarrow> exceeds (colorDistance c1 c2) t"
proof -
  assume t: "t < 0"
  have "0 \<le> sqrt (real_of_int (a * a + b * b + c * c))" for a b c :: int
    by simp
  with t show ?thesis
    by (auto simp: exceeds_def colorDistance_def Let_def split: option.splits intro: less_le_trans)
qed

lemma findMaxBlobSize_ge_1: "1 \<le> findMaxBlobSize G v sens x y lx ly chk"
  by (simp add: findMaxBlobSize_def Let_def growSquare_ge)

text \<open>
  Claim C4, as stated, at a concrete input: on the 3 x 4 example grid sensitivity 5
  yields blobs of sizes 1, 1, 1, 3 (average 3/2) and sensitivity 10 yields sizes
  2, 1, 1, 2, 1, 1 (average 4/3).
\<close>

theorem similarity_monotonicity_counterexample:
  "averageSize (blobs grid3x4 5 50 3 4) = 3 / 2
   \<and> averageSize (blobs grid3x4 10 50 3 4) = 4 / 3
   \<and> (5::real) \<le> 10
   \<and> averageSize (blobs grid3x4 10 50 3 4) < averageSize (blobs grid3x4 5 50 3 4)"
  by (simp add: blobs_grid3x4_low blobs_grid3x4_high averageSize_def)

text \<open>
  Claim C4, amended. For a fixed colour grid, visited array and anchor cell, the size
  that \<open>findMaxBlobSize\<close> returns with the similarity check on (as the scan calls it)
  never decreases when \<open>similaritySensitivity\<close> increases. The average over a whole pass
  is not monotone, since a larger early blob changes which cells become anchors later.
\<close>

theorem findMaxBlobSize_monotone:
  assumes "s1 \<le> s2"
  shows "findMaxBlobSize G v s1 x y lx ly True \<le> findMaxBlobSize G v s2 x y lx ly True"
proof (cases "s1 = 0")
  case True
  then have "findMaxBlobSize G v s1 x y lx ly True = 1"
    by (simp add: findMaxBlobSize_def)
  then show ?thesis
    using findMaxBlobSize_ge_1 [of G v s2 x y lx ly True] by simp
next
  case s1: False
  show ?thesis
  proof (cases "s2 = 0")
    case True
    with s1 assms have "similarityThreshold s1 < 0"
      by (simp add: similarityThreshold_def)
    then have "findMaxBlobSize G v s1 x y lx ly True = 1"
      using s1 by (simp add: findMaxBlobSize_def Let_def tooDistant_def exceeds_negative
          growSquare_all_blocked)
    then show ?thesis
      using findMaxBlobSize_ge_1 [of G v s2 x y lx ly True] by simp
  next
    case False
    from assms have t: "similarityThreshold s1 \<le> similarityThreshold s2"
      by (simp add: similarityThreshold_def)
    show ?thesis
      using s1 False
      by (auto simp: findMaxBlobSize_def Let_def tooDistant_def
          intro!: growSquare_mono exceeds_mono [OF t])
  qed
qed

theorem findMaxBlobSize_monotone_witness:
  "(5::real) \<le> 10
   \<and> findMaxBlobSize grid3x4 (replicate 4 (replicate 3 False)) 5 0 0 3 4 True = 1
   \<and> findMaxBlobSize grid3x4 (replicate 4 (replicate 3 False)) 10 0 0 3 4 True = 2
   \<and> findMaxBlobSize grid3x4 (replicate 4 (replicate 3 False)) 5 0 0 3 4 True
       \<le> findMaxBlobSize grid3x4 (replicate 4 (replicate 3 False)) 10 0 0 3 4 True"
proof -
  have "findMaxBlobSize grid3x4 (replicate 4 (replicate 3 False)) 5 0 0 3 4 True = 1"
    and "findMaxBlobSize grid3x4 (replicate 4 (replicate 3 False)) 10 0 0 3 4 True = 2"
    by code_simp+
  with findMaxBlobSize_monotone [of 5 10 grid3x4 "replicate 4 (replicate 3 False)" 0 0 3 4]
  show ?thesis by simp
qed

section \<open>Marker selection\<close>

lemma length_sortedAllBlobs [simp]: "length (sortedAllBlobs bs) = length bs"
  by (simp add: sortedAllBlobs_def)

lemma markerCount_le: "markerCount bs \<le> length bs"
proof -
  have "real (length bs) * (4 / 100) \<le> real_of_int (int (length bs))"
    by simp
  then have "\<lceil>real (length bs) * (4 / 100)\<rceil> \<le> int (length bs)"
    by (simp only: ceiling_le_iff)
  then have "nat \<lceil>real (length bs) * (4 / 100)\<rceil> \<le> length bs"
    by simp
  then show ?thesis
    by (simp add: markerCount_def min_le_iff_disj)
qed

text \<open>
  Claim C8. The blobs flagged for markers are the first \<open>min (ceil (4% of the number of
  blobs)) 5\<close> entries of the list of all blobs of the pass sorted by size, largest first:
  there are exactly that many, no blob outside the selection is larger than one inside,
  and selection and rest together are all the blobs, whatever the size threshold later
  removes from drawing.
\<close>

theorem marker_selection:
  "length (topBlobsForMarkers bs) = min (nat \<lceil>(4 / 100) * real (length bs)\<rceil>) 5
   \<and> sorted (map (\<lambda>b. - int (blob_size b)) (sortedAllBlobs bs))
   \<and> (\<forall>t \<in> set (topBlobsForMarkers bs).
        \<forall>r \<in> set (drop (markerCount bs) (sortedAllBlobs bs)). blob_size r \<le> blob_size t)
   \<and> mset (topBlobsForMarkers bs) + mset (drop (markerCount bs) (sortedAllBlobs bs)) = mset bs
   \<and> set (filteredBlobs lowerLimit bs) \<subseteq> set bs"
proof -
  let ?k = "markerCount bs" and ?s = "sortedAllBlobs bs"
  have len: "length (topBlobsForMarkers bs) = min (nat \<lceil>(4 / 100) * real (length bs)\<rceil>) 5"
    using markerCount_le [of bs]
    by (simp add: topBlobsForMarkers_def) (simp add: markerCount_def mult.commute)
  have srt: "sorted (map (\<lambda>b. - int (blob_size b)) ?s)"
    by (simp add: sortedAllBlobs_def)
  have "sorted (map (\<lambda>b. - int (blob_size b)) (take ?k ?s) @ map (\<lambda>b. - int (blob_size b)) (drop ?k ?s))"
    using srt by (simp only: map_append [symmetric] append_take_drop_id)
  then have rank: "\<forall>t \<in> set (take ?k ?s). \<forall>r \<in> set (drop ?k ?s). blob_size r \<le> blob_size t"
    by (auto simp: sorted_append)
  have "mset (take ?k ?s) + mset (drop ?k ?s) = mset ?s"
    by (simp only: mset_append [symmetric] append_take_drop_id)
  then have all: "mset (take ?k ?s) + mset (drop ?k ?s) = mset bs"
    by (simp add: sortedAllBlobs_def)
  from len srt rank all show ?thesis
    by (simp add: topBlobsForMarkers_def filteredBlobs_def)
qed

theorem marker_selection_witness:
  "length blobs26 = 26
   \<and> topBlobsForMarkers blobs26
       = [\<lparr>blob_x = 0, blob_y = 0, blob_size = 7\<rparr>, \<lparr>blob_x = 0, blob_y = 7, blob_size = 1\<rparr>]
   \<and> length (topBlobsForMarkers blobs26) = min (nat \<lceil>(4 / 100) * real (length blobs26)\<rceil>) 5
   \<and> \<lparr>blob_x = 0, blob_y = 7, blob_size = 1\<rparr> \<in> set (topBlobsForMarkers blobs26)
   \<and> \<lparr>blob_x = 1, blob_y = 7, blob_size = 1\<rparr>
        \<in> set (drop (markerCount blobs26) (sortedAllBlobs blobs26))
   \<and> blob_size \<lparr>blob_x = 1, blob_y = 7, blob_size = 1\<rparr>
        \<le> blob_size \<lparr>blob_x = 0, blob_y = 7, blob_size = 1\<rparr>
   \<and> filteredBlobs 50 blobs26 = [\<lparr>blob_x = 0, blob_y = 0, blob_size = 7\<rparr>]"
proof -
  have e: "length blobs26 = 26"
    "topBlobsForMarkers blobs26
       = [\<lparr>blob_x = 0, blob_y = 0, blob_size = 7\<rparr>, \<lparr>blob_x = 0, blob_y = 7, blob_size = 1\<rparr>]"
    "\<lparr>blob_x = 1, blob_y = 7, blob_size = 1\<rparr> \<in> set (drop (markerCount blobs26) (sortedAllBlobs blobs26))"
    "filteredBlobs 50 blobs26 = [\<lparr>blob_x = 0, blob_y = 0, blob_size = 7\<rparr>]"
    by code_simp+
  have t: "\<lparr>blob_x = 0, blob_y = 7, blob_size = 1\<rparr> \<in> set (topBlobsForMarkers blobs26)"
    unfolding e(2) by simp
  from marker_selection [of blobs26] e t show ?thesis by blast
qed

end
